theory Spec2Isabelle
  imports Complex_Main "HOL-Library.Code_Target_Nat"
begin

section \<open>Integer helpers shared by the kernels\<close>

text \<open>
  The kernels compute on \<^verbatim>\<open>int64_t\<close> values. They are modelled as \<^typ>\<open>int\<close>;
  C++ division truncates towards zero, which \<open>cpp_div\<close> writes out.
\<close>

definition cpp_div :: "int \<Rightarrow> int \<Rightarrow> int" where
  "cpp_div a b = sgn a * sgn b * (\<bar>a\<bar> div \<bar>b\<bar>)"

text \<open>
  Modelled from the spec: \<^verbatim>\<open>ceil_div\<close> of \<^verbatim>\<open>imath.hpp\<close> is not among the sources;
  it is the rounded-up quotient \<^verbatim>\<open>(a + b - 1) / b\<close> in C++ arithmetic.
\<close>

definition ceil_div :: "int \<Rightarrow> int \<Rightarrow> int" where
  "ceil_div a b = cpp_div (a + b - 1) b"

text \<open>
  Modelled from the spec: \<^verbatim>\<open>in_between\<close> of \<^verbatim>\<open>min.hpp\<close> is not among the sources;
  it clamps its middle argument, testing the lower bound first.
\<close>

definition in_between :: "int \<Rightarrow> int \<Rightarrow> int \<Rightarrow> int" where
  "in_between mn x mx = (if x < mn then mn else if x > mx then mx else x)"

section \<open>P2: the thread sieving distance\<close>

text \<open>
  An \<^verbatim>\<open>int64_t\<close> operation whose exact result is \<open>i\<close> leaves the value
  \<open>wrap_int64 i\<close>: the result modulo \<open>2^64\<close>, read as a signed number.
\<close>

definition wrap_int64 :: "int \<Rightarrow> int" where
  "wrap_int64 i = (i + 2 ^ 63) mod 2 ^ 64 - 2 ^ 63"

text \<open>
  \<^verbatim>\<open>balanceLoad\<close> of \<^verbatim>\<open>P2.cpp\<close>. The parameter \<open>seconds\<close> is the value of the
  \<^verbatim>\<open>double\<close> that \<^verbatim>\<open>get_wtime() - start_time\<close> evaluates to: the clock and the
  rounding of the subtraction stay outside. The result is the updated
  \<^verbatim>\<open>*thread_distance\<close>; the doubling and the difference \<open>z - low\<close> wrap around as
  \<^verbatim>\<open>int64_t\<close> values do, and the division by \<open>threads = 0\<close> in \<^verbatim>\<open>ceil_div\<close>, which
  ends the program, is \<open>None\<close>.
\<close>

definition min_distance :: int where
  "min_distance = 2 ^ 23"

definition balanceLoad :: "int \<Rightarrow> int \<Rightarrow> int \<Rightarrow> int \<Rightarrow> real \<Rightarrow> int option" where
  "balanceLoad thread_distance low z threads seconds =
     (if threads = 0 then None
      else
        (let max_distance = ceil_div (wrap_int64 (z - low)) threads;
             d1 = (if seconds < 60 then wrap_int64 (thread_distance * 2) else thread_distance);
             d2 = (if seconds > 60 then cpp_div d1 2 else d1)
         in Some (in_between min_distance d2 max_distance)))"

lemma in_between_range:
  "mn \<le> mx \<Longrightarrow> mn \<le> in_between mn x mx \<and> in_between mn x mx \<le> mx"
  by (simp add: in_between_def)

lemma wrap_int64_exact:
  assumes "- (2 ^ 63) \<le> i" "i < 2 ^ 63"
  shows "wrap_int64 i = i"
proof -
  define M :: int where "M = 2 ^ 64"
  define H :: int where "H = 2 ^ 63"
  have MH: "M = 2 * H" by (simp add: M_def H_def)
  have "0 \<le> i + H" "i + H < M" using assms MH by (simp_all add: H_def)
  then have "(i + H) mod M = i + H" by simp
  then show ?thesis by (simp add: wrap_int64_def M_def H_def)
qed

text \<open>
  C7 (as amended). After a batch, with at least one thread and a difference \<open>z - low\<close>
  that \<^verbatim>\<open>int64_t\<close> holds, also with \<open>threads - 1\<close> added as \<^verbatim>\<open>ceil_div\<close> does,
  \<^verbatim>\<open>balanceLoad\<close> returns. Its only time threshold is 60
  seconds: below it the distance is doubled (wrapping around as an \<^verbatim>\<open>int64_t\<close>, so a
  true doubling for a distance between \<open>-2^62\<close> and \<open>2^62\<close>), above it halved
  (truncating), at exactly 60 seconds it is kept; the value is then clamped by
  \<^verbatim>\<open>in_between\<close>. The result lies between \<open>2^23\<close> and \<open>ceil_div (z - low) threads\<close>
  whenever that interval is not empty.
\<close>

theorem balanceLoad_clamped:
  assumes "1 \<le> threads" "- (2 ^ 63) \<le> z - low" "z - low + threads - 1 < 2 ^ 63"
  shows
    "(seconds < 60 \<longrightarrow>
        balanceLoad d low z threads seconds =
          Some (in_between (2 ^ 23) (wrap_int64 (d * 2)) (ceil_div (z - low) threads))) \<and>
     (- (2 ^ 62) \<le> d \<and> d < 2 ^ 62 \<longrightarrow> wrap_int64 (d * 2) = d * 2) \<and>
     (seconds > 60 \<longrightarrow>
        balanceLoad d low z threads seconds =
          Some (in_between (2 ^ 23) (cpp_div d 2) (ceil_div (z - low) threads))) \<and>
     (seconds = 60 \<longrightarrow>
        balanceLoad d low z threads seconds =
          Some (in_between (2 ^ 23) d (ceil_div (z - low) threads))) \<and>
     (2 ^ 23 \<le> ceil_div (z - low) threads \<longrightarrow>
        (\<exists>r. balanceLoad d low z threads seconds = Some r \<and>
             2 ^ 23 \<le> r \<and> r \<le> ceil_div (z - low) threads))"
proof -
  have t: "threads \<noteq> 0" using assms(1) by simp
  have "z - low < 2 ^ 63" using assms(1,3) by linarith
  then have w: "wrap_int64 (z - low) = z - low" by (rule wrap_int64_exact [OF assms(2)])
  have r: "2 ^ 23 \<le> ceil_div (z - low) threads \<Longrightarrow>
      2 ^ 23 \<le> in_between (2 ^ 23) v (ceil_div (z - low) threads) \<and>
      in_between (2 ^ 23) v (ceil_div (z - low) threads) \<le> ceil_div (z - low) threads" for v
    by (rule in_between_range)
  have dbl: "- (2 ^ 62) \<le> d \<and> d < 2 ^ 62 \<longrightarrow> wrap_int64 (d * 2) = d * 2"
  proof
    assume "- (2 ^ 62) \<le> d \<and> d < 2 ^ 62"
    then have "- (2 ^ 63) \<le> d * 2" "d * 2 < 2 ^ 63" by simp_all
    then show "wrap_int64 (d * 2) = d * 2" by (rule wrap_int64_exact)
  qed
  have c1: "seconds < 60 \<longrightarrow>
        balanceLoad d low z threads seconds =
          Some (in_between (2 ^ 23) (wrap_int64 (d * 2)) (ceil_div (z - low) threads))"
    using t by (simp add: balanceLoad_def min_distance_def Let_def w)
  have c2: "seconds > 60 \<longrightarrow>
        balanceLoad d low z threads seconds =
          Some (in_between (2 ^ 23) (cpp_div d 2) (ceil_div (z - low) threads))"
    using t by (simp add: balanceLoad_def min_distance_def Let_def w)
  have c3: "seconds = 60 \<longrightarrow>
        balanceLoad d low z threads seconds =
          Some (in_between (2 ^ 23) d (ceil_div (z - low) threads))"
    using t by (simp add: balanceLoad_def min_distance_def Let_def w)
  have c4: "2 ^ 23 \<le> ceil_div (z - low) threads \<longrightarrow>
        (\<exists>r. balanceLoad d low z threads seconds = Some r \<and>
             2 ^ 23 \<le> r \<and> r \<le> ceil_div (z - low) threads)"
    using t r by (simp add: balanceLoad_def min_distance_def Let_def w)
  from c1 dbl c2 c3 c4 show ?thesis by blast
qed

theorem balanceLoad_clamped_witness:
  "(1 :: int) \<le> 4 \<and> - (2 ^ 63) \<le> (10 ^ 9 - 2 :: int) \<and>
   (10 ^ 9 - 2 + 4 - 1 :: int) < 2 ^ 63 \<and>
   balanceLoad (2 ^ 23) 2 (10 ^ 9) 4 5 = Some (2 ^ 24) \<and>
   balanceLoad (2 ^ 24) 2 (10 ^ 9) 4 70 = Some (2 ^ 23) \<and>
   balanceLoad (2 ^ 24) 2 (10 ^ 9) 4 60 = Some (2 ^ 24) \<and>
   balanceLoad (2 ^ 62) 2 (10 ^ 9) 4 5 = Some (2 ^ 23) \<and>
   (2 :: int) ^ 23 \<le> ceil_div (10 ^ 9 - 2) 4"
proof -
  have h: "(1 :: int) \<le> 4" "- (2 ^ 63) \<le> (10 ^ 9 - 2 :: int)"
    "(10 ^ 9 - 2 + 4 - 1 :: int) < 2 ^ 63"
    by simp_all
  have v: "wrap_int64 (2 ^ 23 * 2) = 2 ^ 24" "wrap_int64 (2 ^ 62 * 2) = - (2 ^ 63)"
    by (simp_all add: wrap_int64_def)
  show ?thesis
    using h v
      balanceLoad_clamped [OF h, where d = "2 ^ 23" and seconds = 5]
      balanceLoad_clamped [OF h, where d = "2 ^ 24" and seconds = 70]
      balanceLoad_clamped [OF h, where d = "2 ^ 24" and seconds = 60]
      balanceLoad_clamped [OF h, where d = "2 ^ 62" and seconds = 5]
    by (simp add: in_between_def ceil_div_def cpp_div_def)
qed

text \<open>
  The run \<^verbatim>\<open>P2(1000, 10, 1)\<close> reaches \<^verbatim>\<open>balanceLoad\<close> with \<open>low = 2 + 2^23\<close>,
  \<open>z = 100\<close>: the upper bound is negative and is what the clamp returns.
\<close>

theorem balanceLoad_interval_counterexample:
  "balanceLoad (2 ^ 23) (2 + 2 ^ 23) 100 1 1 = Some (- 8388510) \<and>
   ceil_div (100 - (2 + 2 ^ 23)) 1 = - 8388510 \<and>
   \<not> (2 ^ 23 \<le> (- 8388510 :: int) \<and> (- 8388510 :: int) \<le> ceil_div (100 - (2 + 2 ^ 23)) 1)"
  by (simp add: balanceLoad_def min_distance_def Let_def in_between_def ceil_div_def cpp_div_def
      wrap_int64_def)

section \<open>Backup documents and the resume operations\<close>

text \<open>
  The backup file is a JSON document: one object per formula (\<^verbatim>\<open>"B"\<close>, \<^verbatim>\<open>"P2"\<close>,
  \<^verbatim>\<open>"Phi0"\<close>), each a map from keys to values. Integers that the code stores as
  decimal strings (\<^verbatim>\<open>to_str\<close>, read back by \<^verbatim>\<open>to_maxint\<close> or
  \<^verbatim>\<open>calculator::eval\<close>, none of them among the sources) are kept as \<open>JInt\<close>.
  Reading a key that the object lacks, or that holds a value of another kind, throws in
  the JSON library: the readers return \<open>None\<close>.
\<close>

datatype jval = JInt int | JReal real | JStr string

type_synonym jobj = "string \<rightharpoonup> jval"

type_synonym json = "string \<rightharpoonup> jobj"

definition get_int :: "json \<Rightarrow> string \<Rightarrow> string \<Rightarrow> int option" where
  "get_int j formula key =
     (case j formula of
        None \<Rightarrow> None
      | Some obj \<Rightarrow> (case obj key of Some (JInt n) \<Rightarrow> Some n | _ \<Rightarrow> None))"

definition get_real :: "json \<Rightarrow> string \<Rightarrow> string \<Rightarrow> real option" where
  "get_real j formula key =
     (case j formula of
        None \<Rightarrow> None
      | Some obj \<Rightarrow> (case obj key of Some (JReal r) \<Rightarrow> Some r | _ \<Rightarrow> None))"

text \<open>
  Modelled from the spec: \<^verbatim>\<open>is_resume\<close> of \<^verbatim>\<open>backup.cpp\<close> is not among the
  sources. The spec's words are: on resume, if the header \<open>(x, y[, z, k])\<close> matches,
  restore the fields. The header is the list of keys and values the caller passes.
\<close>

definition is_resume :: "json \<Rightarrow> string \<Rightarrow> (string \<times> int) list \<Rightarrow> bool" where
  "is_resume j formula header =
     (j formula \<noteq> None \<and> list_all (\<lambda>(key, v). get_int j formula key = Some v) header)"

text \<open>
  \<^verbatim>\<open>resume\<close> of \<^verbatim>\<open>B.cpp\<close> (the overload that resumes an interrupted computation).
  The output parameters are the record; \<open>now\<close> is \<^verbatim>\<open>get_time()\<close>.
\<close>

record B_vars =
  b_low :: int
  b_pi_low_minus_1 :: int
  b_thread_distance :: int
  b_sum :: int
  b_time :: real

definition B_resume :: "json \<Rightarrow> real \<Rightarrow> int \<Rightarrow> int \<Rightarrow> B_vars \<Rightarrow> (bool \<times> B_vars) option" where
  "B_resume j now x y vars =
     (if is_resume j ''B'' [(''x'', x), (''y'', y)] then
        (case (get_real j ''B'' ''seconds'', get_int j ''B'' ''low'',
               get_int j ''B'' ''pi_low_minus_1'', get_int j ''B'' ''thread_distance'',
               get_int j ''B'' ''sum'') of
           (Some seconds, Some l, Some p, Some d, Some s) \<Rightarrow>
             Some (True, \<lparr>b_low = l, b_pi_low_minus_1 = p, b_thread_distance = d,
                          b_sum = s, b_time = now - seconds\<rparr>)
         | _ \<Rightarrow> None)
      else Some (False, vars))"

text \<open>
  \<^verbatim>\<open>resume\<close> of \<^verbatim>\<open>P2.cpp\<close>: a \<^verbatim>\<open>void\<close> function, so the result is the output
  parameters alone.
\<close>

record P2_vars =
  p2_low :: int
  p2_thread_distance :: int
  p2_pix_total :: int
  p2_p2 :: int
  p2_time :: real

definition P2_resume :: "json \<Rightarrow> real \<Rightarrow> int \<Rightarrow> int \<Rightarrow> int \<Rightarrow> P2_vars \<Rightarrow> P2_vars option" where
  "P2_resume j now x y z vars =
     (if is_resume j ''P2'' [(''x'', x), (''y'', y), (''z'', z)] then
        (case (get_real j ''P2'' ''percent'', get_real j ''P2'' ''seconds'',
               get_int j ''P2'' ''low'', get_int j ''P2'' ''thread_distance'',
               get_int j ''P2'' ''pix_total'', get_int j ''P2'' ''p2'') of
           (Some percent, Some seconds, Some l, Some d, Some pt, Some p) \<Rightarrow>
             Some \<lparr>p2_low = l, p2_thread_distance = d, p2_pix_total = pt, p2_p2 = p,
                   p2_time = now - seconds\<rparr>
         | _ \<Rightarrow> None)
      else Some vars)"

text \<open>
  \<^verbatim>\<open>resume\<close> of \<^verbatim>\<open>Phi0.cpp\<close>; the document is what \<^verbatim>\<open>load_backup()\<close> returned.
\<close>

record Phi0_vars =
  phi0_sum :: int
  phi0_time :: real

definition Phi0_resume ::
  "json \<Rightarrow> real \<Rightarrow> int \<Rightarrow> int \<Rightarrow> int \<Rightarrow> int \<Rightarrow> Phi0_vars \<Rightarrow> (bool \<times> Phi0_vars) option" where
  "Phi0_resume j now x y z k vars =
     (if is_resume j ''Phi0'' [(''x'', x), (''y'', y), (''z'', z), (''k'', k)] then
        (case (get_real j ''Phi0'' ''percent'', get_real j ''Phi0'' ''seconds'',
               get_int j ''Phi0'' ''sum'') of
           (Some percent, Some seconds, Some s) \<Rightarrow>
             Some (True, \<lparr>phi0_sum = s, phi0_time = now - seconds\<rparr>)
         | _ \<Rightarrow> None)
      else Some (False, vars))"

text \<open>A backup document with the keys the \<^verbatim>\<open>backup\<close> functions write, used as an example.\<close>

definition example_backup :: json where
  "example_backup =
     [''B'' \<mapsto> [''x'' \<mapsto> JInt 1000, ''y'' \<mapsto> JInt 10, ''low'' \<mapsto> JInt 50,
                 ''pi_low_minus_1'' \<mapsto> JInt 15, ''thread_distance'' \<mapsto> JInt 8388608,
                 ''sum'' \<mapsto> JInt 77, ''seconds'' \<mapsto> JReal 3],
      ''P2'' \<mapsto> [''x'' \<mapsto> JInt 1000, ''y'' \<mapsto> JInt 10, ''z'' \<mapsto> JInt 100,
                  ''low'' \<mapsto> JInt 60, ''thread_distance'' \<mapsto> JInt 8388608,
                  ''pix_total'' \<mapsto> JInt 17, ''p2'' \<mapsto> JInt 5, ''percent'' \<mapsto> JReal 60,
                  ''seconds'' \<mapsto> JReal 4],
      ''Phi0'' \<mapsto> [''x'' \<mapsto> JInt 1000, ''y'' \<mapsto> JInt 10, ''z'' \<mapsto> JInt 100,
                    ''k'' \<mapsto> JInt 3, ''sum'' \<mapsto> JInt 9, ''percent'' \<mapsto> JReal 100,
                    ''seconds'' \<mapsto> JReal 5]]"

text \<open>
  C8. Each resume operation restores the saved fields exactly when the header of the
  backup document matches the invocation; otherwise the output parameters keep their
  values, and the operations that return a flag return false. (A matching document that
  lacks a saved field makes the JSON library throw: those are the cases left out by the
  "present" conditions.)
\<close>

theorem resume_iff_header:
  "(\<not> is_resume j ''B'' [(''x'', x), (''y'', y)] \<longrightarrow>
      B_resume j now x y bv = Some (False, bv)) \<and>
   (is_resume j ''B'' [(''x'', x), (''y'', y)] \<longrightarrow>
    get_real j ''B'' ''seconds'' = Some secs \<longrightarrow> get_int j ''B'' ''low'' = Some l \<longrightarrow>
    get_int j ''B'' ''pi_low_minus_1'' = Some p \<longrightarrow>
    get_int j ''B'' ''thread_distance'' = Some d \<longrightarrow> get_int j ''B'' ''sum'' = Some s \<longrightarrow>
      B_resume j now x y bv =
        Some (True, \<lparr>b_low = l, b_pi_low_minus_1 = p, b_thread_distance = d, b_sum = s,
                     b_time = now - secs\<rparr>)) \<and>
   (\<not> is_resume j ''P2'' [(''x'', x), (''y'', y), (''z'', z)] \<longrightarrow>
      P2_resume j now x y z pv = Some pv) \<and>
   (is_resume j ''P2'' [(''x'', x), (''y'', y), (''z'', z)] \<longrightarrow>
    get_real j ''P2'' ''percent'' = Some pc \<longrightarrow> get_real j ''P2'' ''seconds'' = Some secsp \<longrightarrow>
    get_int j ''P2'' ''low'' = Some lp \<longrightarrow> get_int j ''P2'' ''thread_distance'' = Some dp \<longrightarrow>
    get_int j ''P2'' ''pix_total'' = Some pt \<longrightarrow> get_int j ''P2'' ''p2'' = Some pp \<longrightarrow>
      P2_resume j now x y z pv =
        Some \<lparr>p2_low = lp, p2_thread_distance = dp, p2_pix_total = pt, p2_p2 = pp,
              p2_time = now - secsp\<rparr>) \<and>
   (\<not> is_resume j ''Phi0'' [(''x'', x), (''y'', y), (''z'', z), (''k'', k)] \<longrightarrow>
      Phi0_resume j now x y z k fv = Some (False, fv)) \<and>
   (is_resume j ''Phi0'' [(''x'', x), (''y'', y), (''z'', z), (''k'', k)] \<longrightarrow>
    get_real j ''Phi0'' ''percent'' = Some pcf \<longrightarrow> get_real j ''Phi0'' ''seconds'' = Some secsf \<longrightarrow>
    get_int j ''Phi0'' ''sum'' = Some sf \<longrightarrow>
      Phi0_resume j now x y z k fv =
        Some (True, \<lparr>phi0_sum = sf, phi0_time = now - secsf\<rparr>)) \<and>
   (case B_resume j now x y bv of
      None \<Rightarrow> True
    | Some (r, _) \<Rightarrow> r = is_resume j ''B'' [(''x'', x), (''y'', y)]) \<and>
   (case Phi0_resume j now x y z k fv of
      None \<Rightarrow> True
    | Some (r, _) \<Rightarrow> r = is_resume j ''Phi0'' [(''x'', x), (''y'', y), (''z'', z), (''k'', k)])"
  by (auto simp add: B_resume_def P2_resume_def Phi0_resume_def split: option.splits)

theorem resume_iff_header_witness:
  "B_resume example_backup 100 1001 10
       \<lparr>b_low = 31, b_pi_low_minus_1 = 10, b_thread_distance = 0, b_sum = 0, b_time = 100\<rparr> =
     Some (False,
       \<lparr>b_low = 31, b_pi_low_minus_1 = 10, b_thread_distance = 0, b_sum = 0, b_time = 100\<rparr>) \<and>
   B_resume example_backup 100 1000 10
       \<lparr>b_low = 31, b_pi_low_minus_1 = 10, b_thread_distance = 0, b_sum = 0, b_time = 100\<rparr> =
     Some (True,
       \<lparr>b_low = 50, b_pi_low_minus_1 = 15, b_thread_distance = 8388608, b_sum = 77,
        b_time = 97\<rparr>) \<and>
   P2_resume example_backup 100 1001 10 99
       \<lparr>p2_low = 2, p2_thread_distance = 8388608, p2_pix_total = 0, p2_p2 = -3, p2_time = 100\<rparr> =
     Some \<lparr>p2_low = 2, p2_thread_distance = 8388608, p2_pix_total = 0, p2_p2 = -3,
           p2_time = 100\<rparr> \<and>
   P2_resume example_backup 100 1000 10 100
       \<lparr>p2_low = 2, p2_thread_distance = 8388608, p2_pix_total = 0, p2_p2 = -3, p2_time = 100\<rparr> =
     Some \<lparr>p2_low = 60, p2_thread_distance = 8388608, p2_pix_total = 17, p2_p2 = 5,
           p2_time = 96\<rparr> \<and>
   Phi0_resume example_backup 100 1001 10 99 4 \<lparr>phi0_sum = 0, phi0_time = 100\<rparr> =
     Some (False, \<lparr>phi0_sum = 0, phi0_time = 100\<rparr>) \<and>
   Phi0_resume example_backup 100 1000 10 100 3 \<lparr>phi0_sum = 0, phi0_time = 100\<rparr> =
     Some (True, \<lparr>phi0_sum = 9, phi0_time = 95\<rparr>)"
  using
    resume_iff_header [where j = example_backup and now = 100 and x = 1001 and y = 10 and
      bv = "\<lparr>b_low = 31, b_pi_low_minus_1 = 10, b_thread_distance = 0, b_sum = 0, b_time = 100\<rparr>"
      and z = 99 and
      pv = "\<lparr>p2_low = 2, p2_thread_distance = 8388608, p2_pix_total = 0, p2_p2 = -3, p2_time = 100\<rparr>"
      and k = 4 and fv = "\<lparr>phi0_sum = 0, phi0_time = 100\<rparr>"]
    resume_iff_header [where j = example_backup and now = 100 and x = 1000 and y = 10 and
      bv = "\<lparr>b_low = 31, b_pi_low_minus_1 = 10, b_thread_distance = 0, b_sum = 0, b_time = 100\<rparr>"
      and z = 100 and
      pv = "\<lparr>p2_low = 2, p2_thread_distance = 8388608, p2_pix_total = 0, p2_p2 = -3, p2_time = 100\<rparr>"
      and k = 3 and fv = "\<lparr>phi0_sum = 0, phi0_time = 100\<rparr>"
      and secs = 3 and l = 50 and p = 15 and d = 8388608 and s = 77
      and pc = 60 and secsp = 4 and lp = 60 and dp = 8388608 and pt = 17 and pp = 5
      and pcf = 100 and secsf = 5 and sf = 9]
  by (simp add: example_backup_def is_resume_def get_int_def get_real_def)

section \<open>The special leaves of pi_lmo5.cpp: the two inner loops\<close>

text \<open>
  \<^verbatim>\<open>std::vector::operator[]\<close> outside the vector is undefined behaviour; the model
  reads a vector with \<open>at_index\<close>, and an out-of-range read ends the computation with
  \<open>None\<close>.
\<close>

definition at_index :: "'a list \<Rightarrow> int \<Rightarrow> 'a option" where
  "at_index xs i = (if 0 \<le> i \<and> i < int (length xs) then Some (xs ! nat i) else None)"

text \<open>The conversion of an \<^verbatim>\<open>int64_t\<close> argument to the \<^verbatim>\<open>uint64_t\<close> parameter of
  \<^verbatim>\<open>Sieve::count\<close>.\<close>

definition u64_of_int :: "int \<Rightarrow> nat" where
  "u64_of_int i = nat (i mod 2 ^ 64)"

text \<open>
  The loop over the square-free leaves of \<^verbatim>\<open>S2\<close> (pi_lmo5.cpp, lines 92-101), for a fixed
  prime \<open>primes[b]\<close>. The sieve is the state \<open>st\<close>, and \<open>cnt\<close> is its \<^verbatim>\<open>count\<close>
  member: it returns the count and the updated sieve. \<open>phi_b\<close> is \<^verbatim>\<open>phi[b]\<close>, which
  the loop only reads. The result is the sieve and \<^verbatim>\<open>s2\<close>.
\<close>

function sqfree_leaves ::
  "('st \<Rightarrow> nat \<Rightarrow> (nat \<times> 'st) option) \<Rightarrow> int \<Rightarrow> int \<Rightarrow> int \<Rightarrow> int list \<Rightarrow> int list \<Rightarrow> int \<Rightarrow>
   int \<Rightarrow> int \<Rightarrow> 'st \<Rightarrow> int \<Rightarrow> ('st \<times> int) option" where
  "sqfree_leaves cnt x prime low mu lpf phi_b min_m m st s2 =
     (if m > min_m then
        (case (at_index mu m, at_index lpf m) of
           (Some mu_m, Some lpf_m) \<Rightarrow>
             (if mu_m \<noteq> 0 \<and> prime < lpf_m then
                (let xpm = cpp_div x (prime * m);
                     stop = xpm - low
                 in case cnt st (u64_of_int stop) of
                      None \<Rightarrow> None
                    | Some (c, st') \<Rightarrow>
                        (let phi_xpm = phi_b + int c
                         in sqfree_leaves cnt x prime low mu lpf phi_b min_m (m - 1) st'
                              (s2 - mu_m * phi_xpm)))
              else sqfree_leaves cnt x prime low mu lpf phi_b min_m (m - 1) st s2)
         | _ \<Rightarrow> None)
      else Some (st, s2))"
  by pat_completeness auto
termination
  by (relation "measure (\<lambda>(cnt, x, prime, low, mu, lpf, phi_b, min_m, m, st, s2). nat (m - min_m))")
    auto

text \<open>
  The loop over the leaves that are a product of two primes (lines 120-126): \<open>l\<close> runs
  downwards while \<open>primes[l] > min_m\<close>.
\<close>

function twoprime_leaves ::
  "('st \<Rightarrow> nat \<Rightarrow> (nat \<times> 'st) option) \<Rightarrow> int \<Rightarrow> int \<Rightarrow> int \<Rightarrow> int list \<Rightarrow> int \<Rightarrow>
   int \<Rightarrow> int \<Rightarrow> 'st \<Rightarrow> int \<Rightarrow> ('st \<times> int) option" where
  "twoprime_leaves cnt x prime low primes phi_b min_m l st s2 =
     (case at_index primes l of
        None \<Rightarrow> None
      | Some primes_l \<Rightarrow>
          (if primes_l > min_m then
             (let xpq = cpp_div x (prime * primes_l);
                  stop = xpq - low
              in case cnt st (u64_of_int stop) of
                   None \<Rightarrow> None
                 | Some (c, st') \<Rightarrow>
                     (let phi_xpq = phi_b + int c
                      in twoprime_leaves cnt x prime low primes phi_b min_m (l - 1) st'
                           (s2 + phi_xpq)))
           else Some (st, s2)))"
  by pat_completeness auto
termination
  by (relation "measure (\<lambda>(cnt, x, prime, low, primes, phi_b, min_m, l, st, s2). nat (l + 1))")
    (auto simp: at_index_def split: if_splits)

declare sqfree_leaves.simps [simp del] twoprime_leaves.simps [simp del]

text \<open>The bounds of the two loops, as \<^verbatim>\<open>S2\<close> computes them from the segment \<open>[low, high)\<close>.\<close>

definition sqfree_min_m :: "int \<Rightarrow> int \<Rightarrow> int \<Rightarrow> int \<Rightarrow> int" where
  "sqfree_min_m x y prime high = max (cpp_div x (prime * high)) (cpp_div y prime)"

definition sqfree_max_m :: "int \<Rightarrow> int \<Rightarrow> int \<Rightarrow> int \<Rightarrow> int" where
  "sqfree_max_m x y prime low = min (cpp_div x (prime * max low 1)) y"

definition twoprime_min_m :: "int \<Rightarrow> int \<Rightarrow> int \<Rightarrow> int" where
  "twoprime_min_m x prime high = max (cpp_div x (prime * high)) prime"

definition twoprime_l :: "int list \<Rightarrow> int \<Rightarrow> int \<Rightarrow> int \<Rightarrow> int \<Rightarrow> int option" where
  "twoprime_l pi_tab x y prime low = at_index pi_tab (min (cpp_div x (prime * max low 1)) y)"

text \<open>
  A sieve that only records the stop values it is asked for: running a loop on it gives
  the sequence of arguments the loop passes to \<^verbatim>\<open>sieve.count\<close>.
\<close>

definition record_stop :: "nat list \<Rightarrow> nat \<Rightarrow> (nat \<times> nat list) option" where
  "record_stop tr stop = Some (0, tr @ [stop])"

text \<open>
  The tables of \<^verbatim>\<open>generate_primes\<close>, \<^verbatim>\<open>generate_pi\<close>, \<^verbatim>\<open>generate_moebius\<close> and
  \<^verbatim>\<open>generate_lpf\<close> for \<open>y = 36\<close>, used in the examples (\<open>primes[0]\<close> is the
  sentinel 0).
\<close>

definition primes_to_36 :: "int list" where
  "primes_to_36 = [0, 2, 3, 5, 7, 11, 13, 17, 19, 23, 29, 31]"

definition pi_to_36 :: "int list" where
  "pi_to_36 = [0, 0, 1, 2, 2, 3, 3, 4, 4, 4, 4, 5, 5, 6, 6, 6, 6, 7, 7, 8, 8, 8, 8, 9, 9, 9,
               9, 9, 9, 10, 10, 11, 11, 11, 11, 11, 11]"

definition mu_to_36 :: "int list" where
  "mu_to_36 = [0, 1, -1, -1, 0, -1, 1, -1, 0, 0, 1, -1, 0, -1, 1, 1, 0, -1, 0, -1, 0, 1, 1, -1, 0,
               0, 1, 0, 0, -1, -1, -1, 0, 1, 1, 1, 0]"

definition lpf_to_36 :: "int list" where
  "lpf_to_36 = [0, 2147483647, 2, 3, 2, 5, 2, 7, 2, 3, 2, 11, 2, 13, 2, 3, 2, 17, 2, 19, 2, 3, 2,
                23, 2, 5, 2, 3, 2, 29, 2, 31, 2, 3, 2, 5, 2]"

lemma cpp_div_nonneg: "0 \<le> a \<Longrightarrow> 0 < b \<Longrightarrow> cpp_div a b = a div b"
  by (simp add: cpp_div_def sgn_if)

lemma int_le_div_iff: "0 < (d::int) \<Longrightarrow> (m \<le> x div d) = (m * d \<le> x)"
proof
  assume d: "0 < d" and le: "m \<le> x div d"
  have "x = d * (x div d) + x mod d" by simp
  moreover have "0 \<le> x mod d" using d by simp
  ultimately have "d * (x div d) \<le> x" by linarith
  moreover have "m * d \<le> (x div d) * d" using le d by (simp add: mult_right_mono)
  ultimately show "m * d \<le> x" by (simp add: mult.commute)
next
  assume d: "0 < d" and le: "m * d \<le> x"
  have "(m * d) div d \<le> x div d" using le d by (rule zdiv_mono1)
  then show "m \<le> x div d" using d by simp
qed

lemma u64_of_int_small: "0 \<le> i \<Longrightarrow> i < 2 ^ 64 \<Longrightarrow> u64_of_int i = nat i"
  by (simp add: u64_of_int_def)

text \<open>The stop of a leaf, as both loops compute it from the second factor \<open>m\<close>.\<close>

definition leaf_stop :: "int \<Rightarrow> int \<Rightarrow> int \<Rightarrow> int \<Rightarrow> nat" where
  "leaf_stop x prime low m = u64_of_int (cpp_div x (prime * m) - low)"

lemma leaf_stop_eq:
  assumes "0 \<le> x" "x < 2 ^ 63" "0 < prime" "0 \<le> low" "0 < m"
    and "m \<le> cpp_div x (prime * max low 1)"
  shows "leaf_stop x prime low m = nat (x div (prime * m) - low)"
    and "low \<le> x div (prime * m)"
proof -
  have pm: "0 < prime * m" using assms by simp
  have low1: "0 < prime * max low 1" using assms by simp
  have "m \<le> x div (prime * max low 1)"
    using assms low1 by (simp add: cpp_div_nonneg)
  then have "m * (prime * max low 1) \<le> x"
    using low1 by (simp add: int_le_div_iff)
  then have "max low 1 * (prime * m) \<le> x" by (simp add: mult.commute mult.left_commute)
  then have "max low 1 \<le> x div (prime * m)"
    using pm by (simp only: int_le_div_iff)
  then show lo: "low \<le> x div (prime * m)" by simp
  have "x div (prime * m) \<le> x div 1"
    using assms(1) pm by (intro zdiv_mono2) simp_all
  then have up: "x div (prime * m) \<le> x" by simp
  have "u64_of_int (x div (prime * m) - low) = nat (x div (prime * m) - low)"
    using lo up assms by (intro u64_of_int_small) simp_all
  then show "leaf_stop x prime low m = nat (x div (prime * m) - low)"
    using assms pm by (simp add: leaf_stop_def cpp_div_nonneg)
qed

lemma leaf_stop_antimono:
  assumes "0 \<le> x" "x < 2 ^ 63" "0 < prime" "0 \<le> low" "0 < m'" "m' \<le> m"
    and "m \<le> cpp_div x (prime * max low 1)"
  shows "leaf_stop x prime low m \<le> leaf_stop x prime low m'"
proof -
  have pm: "0 < prime * m'" "prime * m' \<le> prime * m"
    using assms by (simp_all add: mult_left_mono)
  have le: "x div (prime * m) \<le> x div (prime * m')"
    using assms(1) pm by (intro zdiv_mono2) simp_all
  have m: "0 < m" using assms by simp
  have m': "m' \<le> cpp_div x (prime * max low 1)" using assms by simp
  show ?thesis
    using leaf_stop_eq [OF assms(1-4) m assms(7)] leaf_stop_eq [OF assms(1-4) assms(5) m'] le
    by simp
qed

lemma sqfree_leaves_sorted:
  assumes "0 \<le> x" "x < 2 ^ 63" "0 < prime" "0 \<le> low" "0 \<le> min_m"
    and "m \<le> cpp_div x (prime * max low 1)"
    and "sorted tr" "\<forall>s \<in> set tr. \<forall>m'. 0 < m' \<and> m' \<le> m \<longrightarrow> s \<le> leaf_stop x prime low m'"
    and "sqfree_leaves record_stop x prime low mu lpf phi_b min_m m tr s2 = Some (tr', s2')"
  shows "sorted tr'"
  using assms
proof (induction record_stop x prime low mu lpf phi_b min_m m tr s2 rule: sqfree_leaves.induct)
  case (1 x prime low mu lpf phi_b min_m m st s2)
  note pre = "1.prems"(1-4)
  show ?case
  proof (cases "m > min_m")
    case False
    with "1.prems" show ?thesis by (simp add: sqfree_leaves.simps [of _ _ _ _ _ _ _ _ m])
  next
    case True
    then have mpos: "0 < m" using "1.prems"(5) by simp
    note unf = "1.prems"(9) [unfolded sqfree_leaves.simps [of _ _ _ _ _ _ _ _ m]]
    from True unf obtain mu_m lpf_m where
      rd: "at_index mu m = Some mu_m" "at_index lpf m = Some lpf_m"
      by (auto split: option.splits)
    have bound': "m - 1 \<le> cpp_div x (prime * max low 1)" using "1.prems"(6) by simp
    show ?thesis
    proof (cases "mu_m \<noteq> 0 \<and> prime < lpf_m")
      case leaf: True
      let ?st = "st @ [leaf_stop x prime low m]"
      have srt: "sorted ?st"
        using "1.prems"(7,8) mpos by (auto simp: sorted_append)
      have inv: "\<forall>s \<in> set ?st. \<forall>m'. 0 < m' \<and> m' \<le> m - 1 \<longrightarrow> s \<le> leaf_stop x prime low m'"
      proof (intro ballI allI impI)
        fix s m' assume s: "s \<in> set ?st" and m': "0 < m' \<and> m' \<le> m - 1"
        show "s \<le> leaf_stop x prime low m'"
        proof (cases "s \<in> set st")
          case True
          then show ?thesis using "1.prems"(8) m' by auto
        next
          case False
          then have "s = leaf_stop x prime low m" using s by simp
          then show ?thesis
            using leaf_stop_antimono [OF pre, of m' m] m' "1.prems"(6) by simp
        qed
      qed
      have run: "sqfree_leaves record_stop x prime low mu lpf phi_b min_m (m - 1) ?st
          (s2 - mu_m * (phi_b + int 0)) = Some (tr', s2')"
        using unf True rd leaf
        by (simp add: record_stop_def leaf_stop_def Let_def)
      show ?thesis
        using "1.hyps"(1) [OF True _ rd(1) rd(2) leaf refl refl _ _ refl pre "1.prems"(5) bound' srt inv run]
        by (simp add: record_stop_def leaf_stop_def)
    next
      case noleaf: False
      have inv: "\<forall>s \<in> set st. \<forall>m'. 0 < m' \<and> m' \<le> m - 1 \<longrightarrow> s \<le> leaf_stop x prime low m'"
        using "1.prems"(8) by auto
      have run: "sqfree_leaves record_stop x prime low mu lpf phi_b min_m (m - 1) st s2 =
          Some (tr', s2')"
        using unf True rd noleaf by simp
      show ?thesis
        using "1.hyps"(2) [OF True _ rd(1) rd(2) noleaf pre "1.prems"(5) bound' "1.prems"(7) inv run] by simp
    qed
  qed
qed

lemma twoprime_leaves_sorted:
  assumes "0 \<le> x" "x < 2 ^ 63" "0 < prime" "0 \<le> low" "0 \<le> min_m" "sorted primes"
    and "\<forall>q. at_index primes l = Some q \<longrightarrow> q \<le> cpp_div x (prime * max low 1)"
    and "sorted tr"
    and "\<forall>s \<in> set tr. \<forall>l'. 0 \<le> l' \<and> l' \<le> l \<and> l' < int (length primes) \<and> 0 < primes ! nat l' \<longrightarrow>
           s \<le> leaf_stop x prime low (primes ! nat l')"
    and "twoprime_leaves record_stop x prime low primes phi_b min_m l tr s2 = Some (tr', s2')"
  shows "sorted tr'"
  using assms
proof (induction record_stop x prime low primes phi_b min_m l tr s2 rule: twoprime_leaves.induct)
  case (1 x prime low primes phi_b min_m l st s2)
  note pre = "1.prems"(1-4)
  note unf = "1.prems"(10) [unfolded twoprime_leaves.simps [of _ _ _ _ _ _ _ l]]
  from unf obtain q where q: "at_index primes l = Some q"
    by (auto split: option.splits)
  then have l: "0 \<le> l" "l < int (length primes)" "q = primes ! nat l"
    by (auto simp: at_index_def split: if_splits)
  show ?case
  proof (cases "q > min_m")
    case False
    with unf q show ?thesis using "1.prems"(8) by simp
  next
    case True
    then have qpos: "0 < q" using "1.prems"(5) by simp
    have qb: "q \<le> cpp_div x (prime * max low 1)" using "1.prems"(7) q by simp
    let ?st = "st @ [leaf_stop x prime low q]"
    have srt: "sorted ?st"
      using "1.prems"(8,9) l qpos by (auto simp: sorted_append)
    have mono: "primes ! nat l' \<le> q" if "0 \<le> l'" "l' \<le> l - 1" for l'
      using that l "1.prems"(6) by (auto simp: sorted_iff_nth_mono)
    have bound': "\<forall>q'. at_index primes (l - 1) = Some q' \<longrightarrow> q' \<le> cpp_div x (prime * max low 1)"
      using mono [of "l - 1"] qb by (auto simp: at_index_def split: if_splits)
    have inv: "\<forall>s \<in> set ?st. \<forall>l'. 0 \<le> l' \<and> l' \<le> l - 1 \<and> l' < int (length primes) \<and>
        0 < primes ! nat l' \<longrightarrow> s \<le> leaf_stop x prime low (primes ! nat l')"
    proof (intro ballI allI impI)
      fix s l'
      assume s: "s \<in> set ?st"
        and l': "0 \<le> l' \<and> l' \<le> l - 1 \<and> l' < int (length primes) \<and> 0 < primes ! nat l'"
      show "s \<le> leaf_stop x prime low (primes ! nat l')"
      proof (cases "s \<in> set st")
        case True
        then show ?thesis using "1.prems"(9) l' by auto
      next
        case False
        then have "s = leaf_stop x prime low q" using s by simp
        then show ?thesis
          using leaf_stop_antimono [OF pre, of "primes ! nat l'" q] l' mono [of l'] qb by simp
      qed
    qed
    have run: "twoprime_leaves record_stop x prime low primes phi_b min_m (l - 1) ?st
        (s2 + (phi_b + int 0)) = Some (tr', s2')"
      using unf True q by (simp add: record_stop_def leaf_stop_def Let_def)
    show ?thesis
      using "1.hyps" [OF q True refl refl _ _ refl pre "1.prems"(5,6) bound' srt inv run]
      by (simp add: record_stop_def leaf_stop_def)
  qed
qed

lemma sqfree_leaves_returns:
  assumes "0 \<le> min_m" "m < int (length mu)" "m < int (length lpf)"
  shows "\<exists>r. sqfree_leaves record_stop x prime low mu lpf phi_b min_m m tr s2 = Some r"
  using assms
proof (induction record_stop x prime low mu lpf phi_b min_m m tr s2 rule: sqfree_leaves.induct)
  case (1 x prime low mu lpf phi_b min_m m st s2)
  show ?case
  proof (cases "m > min_m")
    case False
    then show ?thesis by (simp add: sqfree_leaves.simps [of _ _ _ _ _ _ _ _ m])
  next
    case True
    then have rd: "at_index mu m = Some (mu ! nat m)" "at_index lpf m = Some (lpf ! nat m)"
      using "1.prems" by (simp_all add: at_index_def)
    show ?thesis
    proof (cases "mu ! nat m \<noteq> 0 \<and> prime < lpf ! nat m")
      case leaf: True
      have "\<exists>r. sqfree_leaves record_stop x prime low mu lpf phi_b min_m (m - 1)
          (st @ [u64_of_int (cpp_div x (prime * m) - low)])
          (s2 - mu ! nat m * (phi_b + int 0)) = Some r"
        using "1.prems"
        by (intro "1.hyps"(1) [OF True _ rd leaf refl refl _ _ refl])
          (simp_all add: record_stop_def)
      then show ?thesis
        using True rd leaf
        by (simp add: sqfree_leaves.simps [of _ _ _ _ _ _ _ _ m] record_stop_def Let_def)
    next
      case noleaf: False
      have "\<exists>r. sqfree_leaves record_stop x prime low mu lpf phi_b min_m (m - 1) st s2 = Some r"
        using "1.prems" by (intro "1.hyps"(2) [OF True _ rd noleaf]) simp_all
      then show ?thesis
        using True rd noleaf by (auto simp add: sqfree_leaves.simps [of _ _ _ _ _ _ _ _ m])
    qed
  qed
qed

lemma twoprime_leaves_returns:
  assumes "0 \<le> min_m" "0 \<le> l" "l < int (length primes)" "primes ! 0 = 0"
  shows "\<exists>r. twoprime_leaves record_stop x prime low primes phi_b min_m l tr s2 = Some r"
  using assms
proof (induction record_stop x prime low primes phi_b min_m l tr s2 rule: twoprime_leaves.induct)
  case (1 x prime low primes phi_b min_m l st s2)
  have q: "at_index primes l = Some (primes ! nat l)"
    using "1.prems" by (simp add: at_index_def)
  show ?case
  proof (cases "primes ! nat l > min_m")
    case False
    then show ?thesis using q by (simp add: twoprime_leaves.simps [of _ _ _ _ _ _ _ l])
  next
    case True
    then have "l \<noteq> 0" using "1.prems" by auto
    then have l': "0 \<le> l - 1" "l - 1 < int (length primes)" using "1.prems" by simp_all
    have "\<exists>r. twoprime_leaves record_stop x prime low primes phi_b min_m (l - 1)
        (st @ [u64_of_int (cpp_div x (prime * primes ! nat l) - low)])
        (s2 + (phi_b + int 0)) = Some r"
      using "1.prems"(1,4) l'
      by (intro "1.hyps" [OF q True refl refl _ _ refl]) (simp_all add: record_stop_def)
    then show ?thesis
      using True q
      by (simp add: twoprime_leaves.simps [of _ _ _ _ _ _ _ l] record_stop_def Let_def)
  qed
qed

lemma sqfree_leaves_trace:
  assumes "sqfree_leaves record_stop x prime low mu lpf phi_b min_m m tr s2 = Some (tr', s2')"
  shows "set tr' \<subseteq> set tr \<union> leaf_stop x prime low ` {min_m<..m}"
  using assms
proof (induction record_stop x prime low mu lpf phi_b min_m m tr s2 rule: sqfree_leaves.induct)
  case (1 x prime low mu lpf phi_b min_m m st s2)
  note unf = "1.prems" [unfolded sqfree_leaves.simps [of _ _ _ _ _ _ _ _ m]]
  show ?case
  proof (cases "m > min_m")
    case False
    with unf show ?thesis by auto
  next
    case True
    from True unf obtain mu_m lpf_m where
      rd: "at_index mu m = Some mu_m" "at_index lpf m = Some lpf_m"
      by (auto split: option.splits)
    have up: "leaf_stop x prime low ` {min_m<..m - 1} \<subseteq> leaf_stop x prime low ` {min_m<..m}"
      by (intro image_mono) auto
    have mem: "leaf_stop x prime low m \<in> leaf_stop x prime low ` {min_m<..m}"
      using True by auto
    show ?thesis
    proof (cases "mu_m \<noteq> 0 \<and> prime < lpf_m")
      case leaf: True
      have run: "sqfree_leaves record_stop x prime low mu lpf phi_b min_m (m - 1)
          (st @ [leaf_stop x prime low m]) (s2 - mu_m * (phi_b + int 0)) = Some (tr', s2')"
        using unf True rd leaf by (simp add: record_stop_def leaf_stop_def Let_def)
      have "set tr' \<subseteq> set (st @ [leaf_stop x prime low m]) \<union>
          leaf_stop x prime low ` {min_m<..m - 1}"
        using "1.hyps"(1) [OF True _ rd(1) rd(2) leaf refl refl _ _ refl run]
        by (simp add: record_stop_def leaf_stop_def)
      then show ?thesis using up mem by auto
    next
      case noleaf: False
      have run: "sqfree_leaves record_stop x prime low mu lpf phi_b min_m (m - 1) st s2 =
          Some (tr', s2')"
        using unf True rd noleaf by simp
      show ?thesis
        using "1.hyps"(2) [OF True _ rd(1) rd(2) noleaf run] up by auto
    qed
  qed
qed

lemma twoprime_leaves_trace:
  assumes "twoprime_leaves record_stop x prime low primes phi_b min_m l tr s2 = Some (tr', s2')"
  shows "set tr' \<subseteq> set tr \<union>
    (\<lambda>l'. leaf_stop x prime low (primes ! nat l')) ` {l'. 0 \<le> l' \<and> l' \<le> l \<and> min_m < primes ! nat l'}"
  using assms
proof (induction record_stop x prime low primes phi_b min_m l tr s2 rule: twoprime_leaves.induct)
  case (1 x prime low primes phi_b min_m l st s2)
  note unf = "1.prems" [unfolded twoprime_leaves.simps [of _ _ _ _ _ _ _ l]]
  from unf obtain q where q: "at_index primes l = Some q"
    by (auto split: option.splits)
  then have l: "0 \<le> l" "q = primes ! nat l"
    by (auto simp: at_index_def split: if_splits)
  show ?case
  proof (cases "q > min_m")
    case False
    with unf q show ?thesis by auto
  next
    case True
    have run: "twoprime_leaves record_stop x prime low primes phi_b min_m (l - 1)
        (st @ [leaf_stop x prime low q]) (s2 + (phi_b + int 0)) = Some (tr', s2')"
      using unf True q by (simp add: record_stop_def leaf_stop_def Let_def)
    let ?f = "\<lambda>l'. leaf_stop x prime low (primes ! nat l')"
    have "set tr' \<subseteq> set (st @ [leaf_stop x prime low q]) \<union>
        ?f ` {l'. 0 \<le> l' \<and> l' \<le> l - 1 \<and> min_m < primes ! nat l'}"
      using "1.hyps" [OF q True refl refl _ _ refl run]
      by (simp add: record_stop_def leaf_stop_def)
    moreover have "?f ` {l'. 0 \<le> l' \<and> l' \<le> l - 1 \<and> min_m < primes ! nat l'} \<subseteq>
        ?f ` {l'. 0 \<le> l' \<and> l' \<le> l \<and> min_m < primes ! nat l'}"
      by (intro image_mono) auto
    moreover have "leaf_stop x prime low q \<in>
        ?f ` {l'. 0 \<le> l' \<and> l' \<le> l \<and> min_m < primes ! nat l'}"
      using True l by auto
    ultimately show ?thesis by auto
  qed
qed

lemma leaf_stop_in_segment:
  assumes "0 \<le> x" "x < 2 ^ 63" "0 < prime" "0 \<le> low" "low < high" "0 < m"
    and "m \<le> cpp_div x (prime * max low 1)" "cpp_div x (prime * high) < m"
  shows "leaf_stop x prime low m < nat (high - low)"
proof -
  have ph: "0 < prime * high" using assms by simp
  have pm: "0 < prime * m" using assms by simp
  have "\<not> m \<le> x div (prime * high)"
    using assms(8) assms(1) ph by (simp add: cpp_div_nonneg)
  then have "\<not> m * (prime * high) \<le> x"
    using int_le_div_iff [OF ph, of m x] by simp
  then have "\<not> high * (prime * m) \<le> x" by (simp add: mult.commute mult.left_commute)
  then have "\<not> high \<le> x div (prime * m)"
    using int_le_div_iff [OF pm, of high x] by simp
  then show ?thesis
    using leaf_stop_eq [OF assms(1-4) assms(6) assms(7)] assms(5) by simp
qed

text \<open>
  C6 (as amended). Within one inner loop of \<^verbatim>\<open>S2\<close>, for a fixed segment and a fixed
  prime, the stop values passed to \<^verbatim>\<open>sieve.count\<close> form a non-decreasing sequence,
  and each lies inside the segment: the loop over the square-free leaves and the loop over
  the two-prime leaves both return, and the recorded sequence of stops is sorted.
\<close>

theorem leaf_stops_nondecreasing:
  assumes "0 \<le> x" "x < 2 ^ 63" "0 \<le> y" "0 < prime" "0 \<le> low" "low < high"
  shows
    "(sqfree_max_m x y prime low < int (length mu) \<and>
      sqfree_max_m x y prime low < int (length lpf) \<longrightarrow>
        (\<exists>tr s. sqfree_leaves record_stop x prime low mu lpf phi_b
                   (sqfree_min_m x y prime high) (sqfree_max_m x y prime low) [] s2 = Some (tr, s) \<and>
                 sorted tr \<and> (\<forall>t \<in> set tr. t < nat (high - low)))) \<and>
     (sorted primes \<and> primes \<noteq> [] \<and> primes ! 0 = 0 \<and> 0 \<le> l \<and> l < int (length primes) \<and>
      primes ! nat l \<le> min (cpp_div x (prime * max low 1)) y \<longrightarrow>
        (\<exists>tr s. twoprime_leaves record_stop x prime low primes phi_b
                   (twoprime_min_m x prime high) l [] s2 = Some (tr, s) \<and>
                 sorted tr \<and> (\<forall>t \<in> set tr. t < nat (high - low))))"
proof (intro conjI impI)
  note pre = assms(1,2,4,5)
  have high: "0 < prime * high" using assms by simp
  have min_sq: "0 \<le> sqfree_min_m x y prime high" "cpp_div x (prime * high) \<le> sqfree_min_m x y prime high"
    using assms high
    by (simp_all add: sqfree_min_m_def cpp_div_nonneg pos_imp_zdiv_nonneg_iff le_max_iff_disj)
  have max_sq: "sqfree_max_m x y prime low \<le> cpp_div x (prime * max low 1)"
    by (simp add: sqfree_max_m_def)
  assume tab: "sqfree_max_m x y prime low < int (length mu) \<and>
      sqfree_max_m x y prime low < int (length lpf)"
  obtain tr s where run: "sqfree_leaves record_stop x prime low mu lpf phi_b
      (sqfree_min_m x y prime high) (sqfree_max_m x y prime low) [] s2 = Some (tr, s)"
    using sqfree_leaves_returns [OF min_sq(1), of "sqfree_max_m x y prime low" mu lpf x prime low
        phi_b "[]" s2] tab by auto
  have srt: "sorted tr"
    using sqfree_leaves_sorted [OF pre min_sq(1) max_sq _ _ run] by simp
  have "t < nat (high - low)" if "t \<in> set tr" for t
  proof -
    from that sqfree_leaves_trace [OF run] obtain m' where
      m': "t = leaf_stop x prime low m'" "sqfree_min_m x y prime high < m'"
        "m' \<le> sqfree_max_m x y prime low"
      by fastforce
    show ?thesis
      unfolding m'(1)
      using m' min_sq max_sq by (intro leaf_stop_in_segment [OF pre assms(6)]) simp_all
  qed
  then show "\<exists>tr s. sqfree_leaves record_stop x prime low mu lpf phi_b
      (sqfree_min_m x y prime high) (sqfree_max_m x y prime low) [] s2 = Some (tr, s) \<and>
      sorted tr \<and> (\<forall>t \<in> set tr. t < nat (high - low))"
    using run srt by blast
next
  note pre = assms(1,2,4,5)
  have high: "0 < prime * high" using assms by simp
  have min_tp: "0 \<le> twoprime_min_m x prime high"
      "cpp_div x (prime * high) \<le> twoprime_min_m x prime high"
    using assms high by (simp_all add: twoprime_min_m_def)
  assume tab: "sorted primes \<and> primes \<noteq> [] \<and> primes ! 0 = 0 \<and> 0 \<le> l \<and> l < int (length primes) \<and>
      primes ! nat l \<le> min (cpp_div x (prime * max low 1)) y"
  obtain tr s where run: "twoprime_leaves record_stop x prime low primes phi_b
      (twoprime_min_m x prime high) l [] s2 = Some (tr, s)"
    using twoprime_leaves_returns [OF min_tp(1), of l primes x prime low phi_b "[]" s2] tab
    by auto
  have bound: "\<forall>q. at_index primes l = Some q \<longrightarrow> q \<le> cpp_div x (prime * max low 1)"
    using tab by (auto simp: at_index_def)
  have srt: "sorted tr"
    using twoprime_leaves_sorted [OF pre min_tp(1) _ bound _ _ run] tab by simp
  have "t < nat (high - low)" if "t \<in> set tr" for t
  proof -
    from that twoprime_leaves_trace [OF run] obtain l' where
      l': "t = leaf_stop x prime low (primes ! nat l')" "0 \<le> l'" "l' \<le> l"
        "twoprime_min_m x prime high < primes ! nat l'"
      by fastforce
    have "primes ! nat l' \<le> primes ! nat l"
      using tab l' by (auto simp: sorted_iff_nth_mono)
    then show ?thesis
      unfolding l'(1)
      using l' min_tp tab by (intro leaf_stop_in_segment [OF pre assms(6)]) simp_all
  qed
  then show "\<exists>tr s. twoprime_leaves record_stop x prime low primes phi_b
      (twoprime_min_m x prime high) l [] s2 = Some (tr, s) \<and>
      sorted tr \<and> (\<forall>t \<in> set tr. t < nat (high - low))"
    using run srt by blast
qed

theorem leaf_stops_nondecreasing_witness:
  "sqfree_leaves record_stop 6000 5 0 mu_to_36 lpf_to_36 0
       (sqfree_min_m 6000 36 5 166) (sqfree_max_m 6000 36 5 0) [] 0 =
     Some ([38, 41, 52, 63, 70, 92, 109], 0) \<and>
   sorted [38, 41, 52, 63, 70, 92, 109 :: nat] \<and>
   twoprime_leaves record_stop 6000 19 0 primes_to_36 0 (twoprime_min_m 6000 19 166) 11 [] 0 =
     Some ([10, 10, 13], 0) \<and>
   sorted [10, 10, 13 :: nat]"
  using leaf_stops_nondecreasing [of 6000 36 5 0 166 mu_to_36 lpf_to_36 0 0 primes_to_36 11]
    leaf_stops_nondecreasing [of 6000 36 19 0 166 mu_to_36 lpf_to_36 0 0 primes_to_36 11]
  by (simp add: sqfree_leaves.simps twoprime_leaves.simps at_index_def record_stop_def
      sqfree_min_m_def sqfree_max_m_def twoprime_min_m_def mu_to_36_def lpf_to_36_def
      primes_to_36_def cpp_div_def u64_of_int_def Let_def)

text \<open>
  The stops are not strictly increasing: for \<open>x = 6000\<close>, \<open>y = 36\<close> (\<open>alpha = 2\<close>) and
  the segment \<open>[0, 166)\<close>, the two-prime loop of the prime 19 starts at
  \<open>l = pi[36] = 11\<close> and passes the stop 10 twice, for the primes 31 and 29.
\<close>

theorem leaf_stops_strict_counterexample:
  "twoprime_l pi_to_36 6000 36 19 0 = Some 11 \<and>
   twoprime_leaves record_stop 6000 19 0 primes_to_36 0 (twoprime_min_m 6000 19 166) 11 [] 0 =
     Some ([10, 10, 13], 0) \<and>
   \<not> sorted_wrt (<) [10, 10, 13 :: nat]"
  by (simp add: twoprime_leaves.simps at_index_def record_stop_def twoprime_l_def
      twoprime_min_m_def primes_to_36_def pi_to_36_def cpp_div_def u64_of_int_def Let_def)

section \<open>The sieve with counters\<close>

text \<open>
  The sieve of a segment \<open>[low, high)\<close>, from the account of \<^verbatim>\<open>Sieve.cpp\<close> in
  \<^verbatim>\<open>Hard-Special-Leaves.md\<close>. Each bit of the sieve array stands for one number of the
  segment and is 1 while the number is unsieved. The model indexes the bits by the offset
  of the number from \<open>low\<close>, which is also the unit of the argument of \<^verbatim>\<open>count\<close>
  and of \<^verbatim>\<open>counters_dist_\<close>; the packing of the bits into array elements (the pair
  \<^verbatim>\<open>i\<close>, \<^verbatim>\<open>bit_index\<close> of the cross-off snippet) is not modelled. Even numbers have
  no bit: their positions hold 0. The \<^verbatim>\<open>uint64_t\<close> members are natural numbers; they
  count bits and positions of one segment and stay far below \<open>2^64\<close>. The member
  \<^verbatim>\<open>count_\<close> is the field \<open>count'\<close>.
\<close>

record Sieve =
  seg_low :: nat
  sieve :: "bool list"
  total_count :: nat
  counters :: "nat list"
  counters_dist :: nat
  counters_dist_log2 :: nat
  prev_stop :: nat
  count' :: nat
  counters_i :: nat
  counters_count :: nat
  counters_stop :: nat

text \<open>The number of 1 bits at the positions \<open>a \<le> i < b\<close>, counted one by one.\<close>

definition bits_in :: "bool list \<Rightarrow> nat \<Rightarrow> nat \<Rightarrow> nat" where
  "bits_in bits a b = length (filter (\<lambda>i. i < length bits \<and> bits ! i) [a..<b])"

definition popcount :: "bool list \<Rightarrow> nat" where
  "popcount bits = length (filter (\<lambda>b. b) bits)"

text \<open>
  Modelled from the spec: the two-argument \<^verbatim>\<open>count(start, stop)\<close> is not among the
  sources; it counts the 1 bits inside \<open>[start, stop]\<close>.
\<close>

definition count_between :: "bool list \<Rightarrow> nat \<Rightarrow> nat \<Rightarrow> nat" where
  "count_between bits start stop = bits_in bits start (stop + 1)"

text \<open>
  The cross-off step (lines 127-132 of the document): sieve out the bit at position \<open>i\<close>
  and update the counters if the bit was 1. The subtractions are those of \<^verbatim>\<open>uint64_t\<close>.
  A position outside the sieve or a counter outside the counters array is an
  out-of-bounds access: \<open>None\<close>.
\<close>

definition u64_sub :: "nat \<Rightarrow> nat \<Rightarrow> nat" where
  "u64_sub a b = (a + 2 ^ 64 - b mod 2 ^ 64) mod 2 ^ 64"

definition cross_off_bit :: "Sieve \<Rightarrow> nat \<Rightarrow> Sieve option" where
  "cross_off_bit s i =
     (let k = drop_bit (counters_dist_log2 s) i in
      if i < length (sieve s) \<and> k < length (counters s) then
        (let is_bit = (if sieve s ! i then 1 else 0)
         in Some (s\<lparr>total_count := u64_sub (total_count s) is_bit,
                    counters := (counters s)[k := u64_sub (counters s ! k) is_bit],
                    sieve := (sieve s)[i := False]\<rparr>))
      else None)"

text \<open>
  \<^verbatim>\<open>Sieve::count(stop)\<close> (lines 144-171 of the document). The \<^verbatim>\<open>while\<close> loop is
  \<open>count_loop\<close>: it returns the sieve and the local variable \<^verbatim>\<open>start\<close>. Reading
  \<^verbatim>\<open>counters_\<close> past its end is an out-of-bounds access: \<open>None\<close>.
\<close>

function count_loop :: "Sieve \<Rightarrow> nat \<Rightarrow> nat \<Rightarrow> (Sieve \<times> nat) option" where
  "count_loop s stop start =
     (if counters_stop s \<le> stop then
        (if counters_i s < length (counters s) then
           count_loop
             (s\<lparr>counters_stop := counters_stop s + counters_dist s,
                counters_count := counters_count s + counters s ! counters_i s,
                counters_i := counters_i s + 1,
                count' := counters_count s + counters s ! counters_i s\<rparr>)
             stop (counters_stop s)
         else None)
      else Some (s, start))"
  by pat_completeness auto
termination
  by (relation "measure (\<lambda>(s, stop, start). length (counters s) - counters_i s)") auto

declare count_loop.simps [simp del]

definition Sieve_count :: "Sieve \<Rightarrow> nat \<Rightarrow> (nat \<times> Sieve) option" where
  "Sieve_count s stop =
     (let start = prev_stop s + 1;
          s1 = s\<lparr>prev_stop := stop\<rparr>
      in case count_loop s1 stop start of
           None \<Rightarrow> None
         | Some (s2, start') \<Rightarrow>
             (let c = count' s2 + count_between (sieve s2) start' stop
              in Some (c, s2\<lparr>count' := c\<rparr>)))"

definition get_total_count :: "Sieve \<Rightarrow> nat" where
  "get_total_count s = total_count s"

text \<open>
  Modelled from the spec: \<^verbatim>\<open>reset_counters\<close>, \<^verbatim>\<open>pre_sieve\<close> and
  \<^verbatim>\<open>cross_off_count\<close> are not among the sources.

  The counting cursor starts at the left edge: nothing counted, the first counter next.
  Position 0 is the number \<open>low\<close>, which is even and has no bit, so the first query
  counts from position 1 as \<^verbatim>\<open>start = prev_stop_ + 1\<close> makes it.

  \<^verbatim>\<open>pre_sieve(primes, c, low, high)\<close> sets the bits of the odd numbers of \<open>[low, high)\<close>,
  crosses off the multiples of the first \<open>c\<close> primes, and initialises the counters, the
  total count and the cursor. The distance of the counters is a power of two
  (\<^verbatim>\<open>allocate_counters\<close> computes it in floating point from \<open>low\<close>); its logarithm is
  the parameter \<open>k\<close>, and there are \<open>sieve_size / counters_dist + 1\<close> counters.

  \<^verbatim>\<open>cross_off_count(prime, b)\<close> crosses off, with the cross-off step above, every
  multiple of the prime in \<open>[low, high)\<close> (the even ones have no bit). It starts the
  counting cursor again: \<^verbatim>\<open>S2\<close> of pi_lmo5.cpp queries \<^verbatim>\<open>count\<close> with stops that begin
  again at the left edge of the segment after each \<^verbatim>\<open>cross_off_count\<close>. The wheel that
  finds the next multiple is not modelled; \<open>b\<close> is its index.
\<close>

definition reset_counters :: "Sieve \<Rightarrow> Sieve" where
  "reset_counters s =
     s\<lparr>prev_stop := 0, count' := 0, counters_i := 0, counters_count := 0,
       counters_stop := counters_dist s\<rparr>"

definition pre_sieve_bits :: "nat list \<Rightarrow> nat \<Rightarrow> nat \<Rightarrow> nat \<Rightarrow> bool list" where
  "pre_sieve_bits primes c low high =
     map (\<lambda>n. odd n \<and> (\<forall>j \<in> {1..c}. \<not> primes ! j dvd n)) [low..<high]"

definition pre_sieve :: "nat list \<Rightarrow> nat \<Rightarrow> nat \<Rightarrow> nat \<Rightarrow> nat \<Rightarrow> Sieve" where
  "pre_sieve primes c low high k =
     (let bits = pre_sieve_bits primes c low high;
          dist = 2 ^ k
      in reset_counters
           \<lparr>seg_low = low, sieve = bits, total_count = popcount bits,
            counters = map (\<lambda>j. bits_in bits (j * dist) ((j + 1) * dist))
                         [0..<length bits div dist + 1],
            counters_dist = dist, counters_dist_log2 = k,
            prev_stop = 0, count' = 0, counters_i = 0, counters_count = 0,
            counters_stop = dist\<rparr>)"

fun cross_off_all :: "Sieve \<Rightarrow> nat list \<Rightarrow> Sieve option" where
  "cross_off_all s [] = Some s"
| "cross_off_all s (i # is) =
     (case cross_off_bit s i of None \<Rightarrow> None | Some s' \<Rightarrow> cross_off_all s' is)"

definition multiples_in :: "Sieve \<Rightarrow> nat \<Rightarrow> nat list" where
  "multiples_in s prime = filter (\<lambda>i. prime dvd (seg_low s + i)) [0..<length (sieve s)]"

definition cross_off_count :: "Sieve \<Rightarrow> nat \<Rightarrow> nat \<Rightarrow> Sieve option" where
  "cross_off_count s prime b = cross_off_all (reset_counters s) (multiples_in s prime)"

text \<open>Sequences of operations on the sieve of one segment.\<close>

datatype sieve_op = Count nat | CrossOffCount nat nat

fun run_ops :: "Sieve \<Rightarrow> sieve_op list \<Rightarrow> (nat list \<times> Sieve) option" where
  "run_ops s [] = Some ([], s)"
| "run_ops s (Count stop # ops) =
     (case Sieve_count s stop of
        None \<Rightarrow> None
      | Some (c, s') \<Rightarrow>
          (case run_ops s' ops of None \<Rightarrow> None | Some (cs, s'') \<Rightarrow> Some (c # cs, s'')))"
| "run_ops s (CrossOffCount prime b # ops) =
     (case cross_off_count s prime b of None \<Rightarrow> None | Some s' \<Rightarrow> run_ops s' ops)"

text \<open>
  The reference: the answers of the queries of a sequence of operations, computed on the
  plain bit array by counting the bits of the positions \<open>0, \<dots>, stop\<close> one by one.
\<close>

fun brute_counts :: "nat \<Rightarrow> bool list \<Rightarrow> sieve_op list \<Rightarrow> nat list" where
  "brute_counts low bits [] = []"
| "brute_counts low bits (Count stop # ops) =
     popcount (take (stop + 1) bits) # brute_counts low bits ops"
| "brute_counts low bits (CrossOffCount prime b # ops) =
     brute_counts low (map (\<lambda>i. bits ! i \<and> \<not> prime dvd (low + i)) [0..<length bits]) ops"

text \<open>
  The queries of a sequence are inside the sieve (\<open>stops_in_range\<close>), and they are
  non-decreasing from one \<^verbatim>\<open>cross_off_count\<close> to the next (\<open>stops_monotone\<close>).
\<close>

fun stops_in_range :: "nat \<Rightarrow> sieve_op list \<Rightarrow> bool" where
  "stops_in_range n [] = True"
| "stops_in_range n (Count stop # ops) = (stop < n \<and> stops_in_range n ops)"
| "stops_in_range n (CrossOffCount prime b # ops) = stops_in_range n ops"

fun stops_monotone :: "nat \<Rightarrow> sieve_op list \<Rightarrow> bool" where
  "stops_monotone prev [] = True"
| "stops_monotone prev (Count stop # ops) = (prev \<le> stop \<and> stops_monotone stop ops)"
| "stops_monotone prev (CrossOffCount prime b # ops) = stops_monotone 0 ops"

subsection \<open>Counting bits\<close>

lemma bits_in_split: "a \<le> b \<Longrightarrow> b \<le> c \<Longrightarrow> bits_in bits a b + bits_in bits b c = bits_in bits a c"
proof -
  assume "a \<le> b" "b \<le> c"
  then have "[a..<c] = [a..<b] @ [b..<c]"
    by (metis le_Suc_ex upt_add_eq_append)
  then show ?thesis by (simp add: bits_in_def)
qed

lemma bits_in_empty [simp]: "b \<le> a \<Longrightarrow> bits_in bits a b = 0"
  by (simp add: bits_in_def)

lemma bits_in_beyond: "length bits \<le> a \<Longrightarrow> bits_in bits a b = 0"
  by (auto simp: bits_in_def filter_empty_conv)

lemma bits_in_single: "bits_in bits i (Suc i) = (if i < length bits \<and> bits ! i then 1 else 0)"
  by (simp add: bits_in_def)

lemma bits_in_cong:
  "(\<And>i. a \<le> i \<Longrightarrow> i < b \<Longrightarrow> (i < length xs \<and> xs ! i) = (i < length ys \<and> ys ! i)) \<Longrightarrow>
   bits_in xs a b = bits_in ys a b"
  unfolding bits_in_def by (rule arg_cong [where f = length], rule filter_cong) auto

lemma bits_in_popcount: "bits_in bits 0 (length bits) = popcount bits"
proof (induction bits rule: rev_induct)
  case Nil
  show ?case by (simp add: bits_in_def popcount_def)
next
  case (snoc x xs)
  have "bits_in (xs @ [x]) 0 (length xs) = bits_in xs 0 (length xs)"
    by (rule bits_in_cong) (simp add: nth_append)
  moreover have "bits_in (xs @ [x]) (length xs) (Suc (length xs)) = (if x then 1 else 0)"
    by (simp add: bits_in_single)
  moreover have "bits_in (xs @ [x]) 0 (length xs) + bits_in (xs @ [x]) (length xs) (Suc (length xs)) =
      bits_in (xs @ [x]) 0 (Suc (length xs))"
    by (rule bits_in_split) simp_all
  ultimately show ?case using snoc by (cases x) (simp_all add: popcount_def)
qed

lemma bits_in_total: "length bits \<le> b \<Longrightarrow> bits_in bits 0 b = popcount bits"
  using bits_in_split [of 0 "length bits" b bits] bits_in_beyond [of bits "length bits" b]
  by (simp add: bits_in_popcount)

lemma bits_in_clear:
  "bits_in (bits[i := False]) a b =
     bits_in bits a b - (if a \<le> i \<and> i < b \<and> i < length bits \<and> bits ! i then 1 else 0)"
proof (cases "a \<le> i \<and> i < b")
  case False
  have "bits_in (bits[i := False]) a b = bits_in bits a b"
    using False by (intro bits_in_cong) (auto simp: nth_list_update)
  then show ?thesis using False by auto
next
  case True
  have l: "bits_in (bits[i := False]) a i = bits_in bits a i"
    by (intro bits_in_cong) (auto simp: nth_list_update)
  have r: "bits_in (bits[i := False]) (Suc i) b = bits_in bits (Suc i) b"
    by (intro bits_in_cong) (auto simp: nth_list_update)
  have m: "bits_in (bits[i := False]) i (Suc i) = 0"
    by (simp add: bits_in_single)
  have s1: "bits_in xs a b = bits_in xs a i + bits_in xs i (Suc i) + bits_in xs (Suc i) b" for xs
    using True bits_in_split [of a i "Suc i" xs] bits_in_split [of a "Suc i" b xs] by simp
  show ?thesis
    using s1 [of bits] s1 [of "bits[i := False]"] l r m True by (simp add: bits_in_single)
qed

lemma popcount_clear:
  "popcount (bits[i := False]) = popcount bits - (if i < length bits \<and> bits ! i then 1 else 0)"
  using bits_in_clear [of bits i 0 "length bits"] bits_in_popcount [of bits]
    bits_in_popcount [of "bits[i := False]"]
  by auto

lemma bits_in_le: "bits_in bits a b \<le> length bits"
proof (cases "a \<le> length bits")
  case False
  then show ?thesis by (simp add: bits_in_beyond)
next
  case True
  have "bits_in bits a b \<le> bits_in bits 0 (max b (length bits))"
  proof (cases "a \<le> b")
    case False
    then show ?thesis by simp
  next
    case ab: True
    show ?thesis
      using bits_in_split [of 0 a b bits] bits_in_split [of 0 b "max b (length bits)" bits] ab
      by simp
  qed
  also have "\<dots> = popcount bits" by (simp add: bits_in_total)
  also have "\<dots> \<le> length bits" by (simp add: popcount_def)
  finally show ?thesis .
qed

lemma sum_buckets:
  "sum_list (map (\<lambda>j. bits_in bits (j * d) ((j + 1) * d)) [0..<m]) = bits_in bits 0 (m * d)"
proof (induction m)
  case 0
  show ?case by simp
next
  case (Suc m)
  have "bits_in bits 0 (m * d) + bits_in bits (m * d) ((m + 1) * d) = bits_in bits 0 ((m + 1) * d)"
    by (rule bits_in_split) simp_all
  then show ?case using Suc by simp
qed

lemma u64_sub_exact: "b \<le> a \<Longrightarrow> a < 2 ^ 64 \<Longrightarrow> u64_sub a b = a - b"
proof -
  assume le: "b \<le> a" and lt: "a < 2 ^ 64"
  define M :: nat where "M = 2 ^ 64"
  have b: "b mod M = b" using le lt by (simp add: M_def)
  have "a + M - b = (a - b) + M" using le by simp
  then have "(a + M - b) mod M = (a - b) mod M" by (simp only: mod_add_self2)
  also have "\<dots> = a - b" using lt by (simp add: M_def)
  finally show ?thesis by (simp only: u64_sub_def b M_def [symmetric])
qed

subsection \<open>The invariants of the sieve\<close>

text \<open>
  \<open>counters_ok\<close>: the counters partition the sieve into buckets of \<open>counters_dist\<close>
  positions, every counter holds the number of 1 bits of its bucket, and the total count
  is the number of 1 bits of the sieve. \<open>cursor_shape\<close> and \<open>cursor_ok\<close> say what the
  counting cursor has summed so far.
\<close>

definition counters_ok :: "Sieve \<Rightarrow> bool" where
  "counters_ok s =
     (counters_dist s = 2 ^ counters_dist_log2 s \<and>
      length (sieve s) < length (counters s) * counters_dist s \<and>
      length (sieve s) < 2 ^ 64 \<and>
      counters s =
        map (\<lambda>j. bits_in (sieve s) (j * counters_dist s) ((j + 1) * counters_dist s))
          [0..<length (counters s)] \<and>
      total_count s = popcount (sieve s) \<and>
      bits_in (sieve s) 0 1 = 0)"

definition cursor_shape :: "Sieve \<Rightarrow> bool" where
  "cursor_shape s = (counters_stop s = (counters_i s + 1) * counters_dist s)"

definition cursor_ok :: "Sieve \<Rightarrow> bool" where
  "cursor_ok s =
     (cursor_shape s \<and>
      counters_count s = bits_in (sieve s) 0 (counters_i s * counters_dist s) \<and>
      counters_i s * counters_dist s \<le> prev_stop s + 1 \<and>
      prev_stop s < counters_stop s \<and>
      count' s = bits_in (sieve s) 0 (prev_stop s + 1))"

lemma counters_okD:
  assumes "counters_ok s"
  shows "counters_dist s = 2 ^ counters_dist_log2 s"
    and "length (sieve s) < length (counters s) * counters_dist s"
    and "length (sieve s) < 2 ^ 64"
    and "counters s =
        map (\<lambda>j. bits_in (sieve s) (j * counters_dist s) ((j + 1) * counters_dist s))
          [0..<length (counters s)]"
    and "total_count s = popcount (sieve s)"
    and "bits_in (sieve s) 0 1 = 0"
  using assms unfolding counters_ok_def by blast+

lemma counters_ok_frame:
  "sieve s' = sieve s \<Longrightarrow> counters s' = counters s \<Longrightarrow> counters_dist s' = counters_dist s \<Longrightarrow>
   counters_dist_log2 s' = counters_dist_log2 s \<Longrightarrow> total_count s' = total_count s \<Longrightarrow>
   counters_ok s' = counters_ok s"
  by (simp add: counters_ok_def)

lemma counters_ok_nth:
  "counters_ok s \<Longrightarrow> j < length (counters s) \<Longrightarrow>
   counters s ! j = bits_in (sieve s) (j * counters_dist s) ((j + 1) * counters_dist s)"
proof -
  assume ok: "counters_ok s" and j: "j < length (counters s)"
  let ?f = "\<lambda>j. bits_in (sieve s) (j * counters_dist s) ((j + 1) * counters_dist s)"
  have "counters s ! j = map ?f [0..<length (counters s)] ! j"
    using counters_okD(4) [OF ok] by (rule arg_cong)
  also have "\<dots> = ?f j" using j by simp
  finally show ?thesis .
qed

lemma counters_ok_dist_pos: "counters_ok s \<Longrightarrow> 0 < counters_dist s"
  using counters_okD(1) by simp

lemma counters_ok_sum: "counters_ok s \<Longrightarrow> sum_list (counters s) = popcount (sieve s)"
proof -
  assume ok: "counters_ok s"
  let ?f = "\<lambda>j. bits_in (sieve s) (j * counters_dist s) ((j + 1) * counters_dist s)"
  have "sum_list (counters s) = sum_list (map ?f [0..<length (counters s)])"
    using counters_okD(4) [OF ok] by (rule arg_cong)
  also have "\<dots> = bits_in (sieve s) 0 (length (counters s) * counters_dist s)"
    by (rule sum_buckets)
  also have "\<dots> = popcount (sieve s)"
    using counters_okD(2) [OF ok] by (intro bits_in_total) simp
  finally show ?thesis .
qed

text \<open>What \<open>count_loop\<close> and \<open>Sieve_count\<close> leave unchanged.\<close>

definition same_sieve :: "Sieve \<Rightarrow> Sieve \<Rightarrow> bool" where
  "same_sieve s s' =
     (sieve s' = sieve s \<and> counters s' = counters s \<and> total_count s' = total_count s \<and>
      counters_dist s' = counters_dist s \<and> counters_dist_log2 s' = counters_dist_log2 s \<and>
      seg_low s' = seg_low s)"

lemma same_sieve_refl [simp]: "same_sieve s s"
  by (simp add: same_sieve_def)

lemma same_sieve_trans: "same_sieve s s' \<Longrightarrow> same_sieve s' s'' \<Longrightarrow> same_sieve s s''"
  by (simp add: same_sieve_def)

lemma same_sieve_ok: "same_sieve s s' \<Longrightarrow> counters_ok s' = counters_ok s"
  by (rule counters_ok_frame) (simp_all add: same_sieve_def)

lemma count_loop_step:
  assumes "counters_ok s" "cursor_shape s" "stop < length (sieve s)" "counters_stop s \<le> stop"
  defines "s1 \<equiv> s\<lparr>counters_stop := counters_stop s + counters_dist s,
      counters_count := counters_count s + counters s ! counters_i s,
      counters_i := counters_i s + 1,
      count' := counters_count s + counters s ! counters_i s\<rparr>"
  shows "counters_i s < length (counters s)"
    and "count_loop s stop start = count_loop s1 stop (counters_stop s)"
    and "same_sieve s s1" and "prev_stop s1 = prev_stop s"
    and "counters_ok s1" and "cursor_shape s1" and "stop < length (sieve s1)"
    and "counters_i s1 = counters_i s + 1" and "count' s1 = counters_count s1"
    and "counters_stop s = counters_i s1 * counters_dist s"
    and "counters_count s = bits_in (sieve s) 0 (counters_i s * counters_dist s) \<Longrightarrow>
         counters_count s1 = bits_in (sieve s) 0 (counters_i s1 * counters_dist s)"
proof -
  let ?d = "counters_dist s"
  let ?i = "counters_i s"
  have "(?i + 1) * ?d < length (counters s) * ?d"
    using assms(2,3,4) counters_okD(2) [OF assms(1)] by (simp add: cursor_shape_def)
  then have "?i + 1 < length (counters s)" unfolding mult_less_cancel2 by blast
  then show i: "?i < length (counters s)" by simp
  then show "count_loop s stop start = count_loop s1 stop (counters_stop s)"
    using assms(4) by (simp add: count_loop.simps [of s] s1_def)
  show ss: "same_sieve s s1" by (simp add: same_sieve_def s1_def)
  show "prev_stop s1 = prev_stop s" by (simp add: s1_def)
  show "counters_ok s1" using assms(1) same_sieve_ok [OF ss] by simp
  show "cursor_shape s1" using assms(2) by (simp add: cursor_shape_def s1_def)
  show "stop < length (sieve s1)" using assms(3) by (simp add: s1_def)
  show "counters_i s1 = ?i + 1" by (simp add: s1_def)
  show "count' s1 = counters_count s1" by (simp add: s1_def)
  show "counters_stop s = counters_i s1 * ?d"
    using assms(2) by (simp add: cursor_shape_def s1_def)
  have cnt: "counters s ! ?i = bits_in (sieve s) (?i * ?d) ((?i + 1) * ?d)"
    using assms(1) i by (rule counters_ok_nth)
  show "counters_count s1 = bits_in (sieve s) 0 (counters_i s1 * ?d)"
    if "counters_count s = bits_in (sieve s) 0 (?i * ?d)"
    using that cnt bits_in_split [of 0 "?i * ?d" "(?i + 1) * ?d" "sieve s"]
    by (simp add: s1_def)
qed

lemma count_loop_frame:
  assumes "counters_ok s" "cursor_shape s" "stop < length (sieve s)"
  shows "\<exists>s' start'. count_loop s stop start = Some (s', start') \<and> same_sieve s s' \<and>
      prev_stop s' = prev_stop s \<and> cursor_shape s' \<and> stop < counters_stop s'"
  using assms
proof (induction s stop start rule: count_loop.induct)
  case (1 s stop start)
  show ?case
  proof (cases "counters_stop s \<le> stop")
    case False
    then show ?thesis using "1.prems" by (simp add: count_loop.simps [of s])
  next
    case True
    note st = count_loop_step [OF "1.prems" True]
    from "1.IH" [OF True st(1) st(5) st(6) st(7)]
    obtain s' start' where
      "count_loop s stop start = Some (s', start')"
      "same_sieve s s'" "prev_stop s' = prev_stop s" "cursor_shape s'" "stop < counters_stop s'"
      using st(2,3,4) same_sieve_trans by (metis (no_types, lifting))
    then show ?thesis by blast
  qed
qed

lemma count_loop_sum:
  assumes "counters_ok s" "cursor_shape s" "stop < length (sieve s)"
    and "counters_count s = bits_in (sieve s) 0 (counters_i s * counters_dist s)"
    and "count_loop s stop start = Some (s', start')"
  shows "counters_count s' = bits_in (sieve s) 0 (counters_i s' * counters_dist s) \<and>
      (if counters_stop s \<le> stop
       then start' = counters_i s' * counters_dist s \<and> count' s' = counters_count s' \<and>
            start' \<le> stop
       else s' = s \<and> start' = start)"
  using assms
proof (induction s stop start rule: count_loop.induct)
  case (1 s stop start)
  show ?case
  proof (cases "counters_stop s \<le> stop")
    case False
    then show ?thesis using "1.prems" by (simp add: count_loop.simps [of s])
  next
    case True
    note st = count_loop_step [OF "1.prems"(1-3) True]
    let ?s1 = "s\<lparr>counters_stop := counters_stop s + counters_dist s,
        counters_count := counters_count s + counters s ! counters_i s,
        counters_i := counters_i s + 1,
        count' := counters_count s + counters s ! counters_i s\<rparr>"
    have sv: "sieve ?s1 = sieve s" "counters_dist ?s1 = counters_dist s" by simp_all
    have run: "count_loop ?s1 stop (counters_stop s) = Some (s', start')"
      using "1.prems"(5) st(2) by simp
    have cc: "counters_count ?s1 = bits_in (sieve ?s1) 0 (counters_i ?s1 * counters_dist ?s1)"
      using st(11) [OF "1.prems"(4)] by simp
    note ih = "1.IH" [OF True st(1) st(5) st(6) st(7) cc run, unfolded sv]
    show ?thesis
    proof (cases "counters_stop ?s1 \<le> stop")
      case True
      then show ?thesis using ih \<open>counters_stop s \<le> stop\<close> by simp
    next
      case False
      then have "s' = ?s1" "start' = counters_stop s" using ih by simp_all
      then show ?thesis
        using ih \<open>counters_stop s \<le> stop\<close> st(9,10) by simp
    qed
  qed
qed

lemma cursor_ok_shape: "cursor_ok s \<Longrightarrow> cursor_shape s"
  by (simp add: cursor_ok_def)

lemma Sieve_count_frame:
  assumes "counters_ok s" "cursor_shape s" "stop < length (sieve s)"
  shows "\<exists>c s'. Sieve_count s stop = Some (c, s') \<and> same_sieve s s' \<and> cursor_shape s' \<and>
      prev_stop s' = stop"
proof -
  let ?s1 = "s\<lparr>prev_stop := stop\<rparr>"
  have ss1: "same_sieve s ?s1" by (simp add: same_sieve_def)
  have ok1: "counters_ok ?s1" using assms(1) same_sieve_ok [OF ss1] by simp
  have sh1: "cursor_shape ?s1" using assms(2) by (simp add: cursor_shape_def)
  have st1: "stop < length (sieve ?s1)" using assms(3) by simp
  from count_loop_frame [OF ok1 sh1 st1, of "prev_stop s + 1"]
  obtain s2 start' where
    run: "count_loop ?s1 stop (prev_stop s + 1) = Some (s2, start')"
    and fr: "same_sieve ?s1 s2" "prev_stop s2 = stop" "cursor_shape s2"
    by auto
  let ?c = "count' s2 + count_between (sieve s2) start' stop"
  have "Sieve_count s stop = Some (?c, s2\<lparr>count' := ?c\<rparr>)"
    using run by (simp add: Sieve_count_def Let_def)
  moreover have "same_sieve s (s2\<lparr>count' := ?c\<rparr>)"
    using fr(1) by (simp add: same_sieve_def)
  moreover have "cursor_shape (s2\<lparr>count' := ?c\<rparr>)"
    using fr(3) by (simp add: cursor_shape_def)
  ultimately show ?thesis using fr(2) by simp
qed

lemma Sieve_count_correct:
  assumes "counters_ok s" "cursor_ok s" "prev_stop s \<le> stop" "stop < length (sieve s)"
  shows "\<exists>s'. Sieve_count s stop = Some (bits_in (sieve s) 0 (stop + 1), s') \<and>
      same_sieve s s' \<and> cursor_ok s' \<and> prev_stop s' = stop"
proof -
  let ?d = "counters_dist s"
  let ?s1 = "s\<lparr>prev_stop := stop\<rparr>"
  have c: "cursor_shape s" "counters_count s = bits_in (sieve s) 0 (counters_i s * ?d)"
    "counters_i s * ?d \<le> prev_stop s + 1" "prev_stop s < counters_stop s"
    "count' s = bits_in (sieve s) 0 (prev_stop s + 1)"
    using assms(2) unfolding cursor_ok_def by blast+
  have ss1: "same_sieve s ?s1" by (simp add: same_sieve_def)
  have ok1: "counters_ok ?s1" using assms(1) same_sieve_ok [OF ss1] by simp
  have sh1: "cursor_shape ?s1" using c(1) by (simp add: cursor_shape_def)
  have st1: "stop < length (sieve ?s1)" using assms(4) by simp
  have cc1: "counters_count ?s1 = bits_in (sieve ?s1) 0 (counters_i ?s1 * counters_dist ?s1)"
    using c(2) by simp
  from count_loop_frame [OF ok1 sh1 st1, of "prev_stop s + 1"]
  obtain s2 start' where
    run: "count_loop ?s1 stop (prev_stop s + 1) = Some (s2, start')"
    and fr: "same_sieve ?s1 s2" "prev_stop s2 = stop" "cursor_shape s2" "stop < counters_stop s2"
    by auto
  have sv2: "sieve s2 = sieve s" "counters_dist s2 = ?d"
    using fr(1) by (simp_all add: same_sieve_def)
  note sm = count_loop_sum [OF ok1 sh1 st1 cc1 run]
  have cc2: "counters_count s2 = bits_in (sieve s) 0 (counters_i s2 * ?d)"
    using sm by simp
  have fin: "if counters_stop s \<le> stop
      then start' = counters_i s2 * ?d \<and> count' s2 = counters_count s2 \<and> start' \<le> stop
      else s2 = ?s1 \<and> start' = prev_stop s + 1"
    using sm by (auto split: if_splits)
  let ?c = "count' s2 + count_between (sieve s2) start' stop"
  have val: "?c = bits_in (sieve s) 0 (stop + 1)" and lo: "counters_i s2 * ?d \<le> stop + 1"
  proof -
    show "?c = bits_in (sieve s) 0 (stop + 1)"
    proof (cases "counters_stop s \<le> stop")
      case True
      then have "start' = counters_i s2 * ?d" "count' s2 = counters_count s2" "start' \<le> stop"
        using fin by simp_all
      then show ?thesis
        using cc2 bits_in_split [of 0 start' "stop + 1" "sieve s"]
        by (simp add: count_between_def sv2)
    next
      case False
      then have "s2 = ?s1" "start' = prev_stop s + 1" using fin by simp_all
      then show ?thesis
        using c(5) assms(3) bits_in_split [of 0 "prev_stop s + 1" "stop + 1" "sieve s"]
        by (simp add: count_between_def)
    qed
    show "counters_i s2 * ?d \<le> stop + 1"
    proof (cases "counters_stop s \<le> stop")
      case True
      then show ?thesis using fin by simp
    next
      case False
      then have "s2 = ?s1" using fin by simp
      then show ?thesis using c(3) assms(3) by simp
    qed
  qed
  let ?s' = "s2\<lparr>count' := ?c\<rparr>"
  have "Sieve_count s stop = Some (?c, ?s')"
    using run by (simp add: Sieve_count_def Let_def)
  moreover have "same_sieve s ?s'" using fr(1) by (simp add: same_sieve_def)
  moreover have "cursor_ok ?s'"
    using fr(2,3,4) cc2 lo val by (simp add: cursor_ok_def cursor_shape_def sv2)
  moreover have "prev_stop ?s' = stop" using fr(2) by simp
  ultimately show ?thesis using val by auto
qed

subsection \<open>Crossing off\<close>

lemma cross_off_bit_ok:
  assumes "counters_ok s" "i < length (sieve s)"
  shows "\<exists>s'. cross_off_bit s i = Some s' \<and> counters_ok s' \<and>
      sieve s' = (sieve s)[i := False] \<and>
      total_count s' = total_count s - (if sieve s ! i then 1 else 0) \<and>
      counters s' = (counters s)[i div counters_dist s :=
          counters s ! (i div counters_dist s) - (if sieve s ! i then 1 else 0)] \<and>
      i div counters_dist s < length (counters s) \<and>
      counters_dist s' = counters_dist s \<and> counters_dist_log2 s' = counters_dist_log2 s \<and>
      seg_low s' = seg_low s \<and> prev_stop s' = prev_stop s \<and> count' s' = count' s \<and>
      counters_i s' = counters_i s \<and> counters_count s' = counters_count s \<and>
      counters_stop s' = counters_stop s"
proof -
  let ?d = "counters_dist s"
  let ?k = "i div ?d"
  let ?b = "if sieve s ! i then 1 else 0 :: nat"
  let ?bits' = "(sieve s)[i := False]"
  note ok = counters_okD [OF assms(1)]
  have d: "0 < ?d" using assms(1) by (rule counters_ok_dist_pos)
  have kk: "drop_bit (counters_dist_log2 s) i = ?k"
    by (simp add: drop_bit_eq_div ok(1))
  have "i < length (counters s) * ?d" using assms(2) ok(2) by simp
  then have k: "?k < length (counters s)"
    by (simp add: less_mult_imp_div_less)
  have bucket: "?k * ?d \<le> i" "i < (?k + 1) * ?d"
    using d by (simp_all add: dividend_less_div_times)
  have ck: "counters s ! ?k = bits_in (sieve s) (?k * ?d) ((?k + 1) * ?d)"
    using assms(1) k by (rule counters_ok_nth)
  have ck_le: "?b \<le> counters s ! ?k"
  proof (cases "sieve s ! i")
    case False
    then show ?thesis by simp
  next
    case True
    have a1: "bits_in (sieve s) (?k * ?d) i + bits_in (sieve s) i (Suc i) =
        bits_in (sieve s) (?k * ?d) (Suc i)"
      using bucket by (intro bits_in_split) simp_all
    have b3: "?k * ?d \<le> Suc i" "Suc i \<le> (?k + 1) * ?d"
      using bucket by linarith+
    have a2: "bits_in (sieve s) (?k * ?d) (Suc i) + bits_in (sieve s) (Suc i) ((?k + 1) * ?d) =
        bits_in (sieve s) (?k * ?d) ((?k + 1) * ?d)"
      by (rule bits_in_split [OF b3])
    have "bits_in (sieve s) i (Suc i) = 1"
      using True assms(2) by (simp add: bits_in_single)
    then show ?thesis using a1 a2 ck True by simp
  qed
  have ck_lt: "counters s ! ?k < 2 ^ 64"
    using ck bits_in_le [of "sieve s" "?k * ?d" "(?k + 1) * ?d"] ok(3) by simp
  have tot_le: "?b \<le> total_count s"
    using ck_le ck ok(5) bits_in_split [of 0 "?k * ?d" "(?k + 1) * ?d" "sieve s"]
      bits_in_split [of 0 "(?k + 1) * ?d" "max ((?k + 1) * ?d) (length (sieve s))" "sieve s"]
      bits_in_total [of "sieve s" "max ((?k + 1) * ?d) (length (sieve s))"]
    by simp
  have tot_lt: "total_count s < 2 ^ 64"
    using ok(5) ok(3) bits_in_popcount [of "sieve s"] bits_in_le [of "sieve s" 0 "length (sieve s)"]
    by simp
  let ?s' = "s\<lparr>total_count := total_count s - ?b,
      counters := (counters s)[?k := counters s ! ?k - ?b],
      sieve := ?bits'\<rparr>"
  have run: "cross_off_bit s i = Some ?s'"
    using assms(2) k kk u64_sub_exact [OF ck_le ck_lt] u64_sub_exact [OF tot_le tot_lt]
    by (simp add: cross_off_bit_def Let_def)
  have cnt': "counters ?s' =
      map (\<lambda>j. bits_in ?bits' (j * ?d) ((j + 1) * ?d)) [0..<length (counters ?s')]"
  proof (rule nth_equalityI)
    show "length (counters ?s') =
        length (map (\<lambda>j. bits_in ?bits' (j * ?d) ((j + 1) * ?d)) [0..<length (counters ?s')])"
      by simp
  next
    fix j assume "j < length (counters ?s')"
    then have j: "j < length (counters s)" by simp
    have cj: "counters s ! j = bits_in (sieve s) (j * ?d) ((j + 1) * ?d)"
      using assms(1) j by (rule counters_ok_nth)
    have inb: "(j * ?d \<le> i \<and> i < (j + 1) * ?d) = (j = ?k)"
    proof
      assume "j * ?d \<le> i \<and> i < (j + 1) * ?d"
      then show "j = ?k" using d
        by (metis Suc_eq_plus1 div_nat_eqI mult.commute)
    next
      assume "j = ?k"
      then show "j * ?d \<le> i \<and> i < (j + 1) * ?d" using bucket by simp
    qed
    have "counters ?s' ! j = bits_in ?bits' (j * ?d) ((j + 1) * ?d)"
    proof (cases "j = ?k")
      case True
      then show ?thesis
        using j cj inb assms(2) by (simp add: bits_in_clear)
    next
      case False
      then have "\<not> (j * ?d \<le> i \<and> i < (j + 1) * ?d)" using inb by simp
      then have "bits_in ?bits' (j * ?d) ((j + 1) * ?d) = bits_in (sieve s) (j * ?d) ((j + 1) * ?d)"
        unfolding bits_in_clear by auto
      then show ?thesis using False j cj by simp
    qed
    then show "counters ?s' ! j =
        map (\<lambda>j. bits_in ?bits' (j * ?d) ((j + 1) * ?d)) [0..<length (counters ?s')] ! j"
      using j by simp
  qed
  have b0: "bits_in ?bits' 0 1 = 0"
    using ok(6) by (simp add: bits_in_clear)
  have "counters_ok ?s'"
    unfolding counters_ok_def
    using ok(1,2,3,5) cnt' b0 assms(2) by (simp add: popcount_clear)
  then show ?thesis using run k by simp
qed

lemma fold_clear_length [simp]: "length (fold (\<lambda>i bs. bs[i := False]) is bs) = length bs"
  by (induction "is" arbitrary: bs) simp_all

lemma fold_clear_nth:
  "j < length bs \<Longrightarrow> fold (\<lambda>i bs. bs[i := False]) is bs ! j = (bs ! j \<and> j \<notin> set is)"
proof (induction "is" arbitrary: bs)
  case Nil
  show ?case by simp
next
  case (Cons i "is")
  have "fold (\<lambda>i bs. bs[i := False]) (i # is) bs ! j =
      fold (\<lambda>i bs. bs[i := False]) is (bs[i := False]) ! j"
    by simp
  also have "\<dots> = (bs[i := False] ! j \<and> j \<notin> set is)"
    using Cons.IH [of "bs[i := False]"] Cons.prems by simp
  also have "\<dots> = (bs ! j \<and> j \<notin> set (i # is))"
    using Cons.prems by (cases "i = j") simp_all
  finally show ?case .
qed

definition same_cursor :: "Sieve \<Rightarrow> Sieve \<Rightarrow> bool" where
  "same_cursor s s' =
     (prev_stop s' = prev_stop s \<and> count' s' = count' s \<and> counters_i s' = counters_i s \<and>
      counters_count s' = counters_count s \<and> counters_stop s' = counters_stop s \<and>
      counters_dist s' = counters_dist s \<and> counters_dist_log2 s' = counters_dist_log2 s \<and>
      seg_low s' = seg_low s)"

lemma cross_off_all_ok:
  assumes "counters_ok s" "\<forall>i \<in> set is. i < length (sieve s)"
  shows "\<exists>s'. cross_off_all s is = Some s' \<and> counters_ok s' \<and> same_cursor s s' \<and>
      sieve s' = fold (\<lambda>i bs. bs[i := False]) is (sieve s)"
  using assms
proof (induction "is" arbitrary: s)
  case Nil
  then show ?case by (simp add: same_cursor_def)
next
  case (Cons i "is")
  from cross_off_bit_ok [OF Cons.prems(1), of i] Cons.prems(2)
  obtain s1 where s1: "cross_off_bit s i = Some s1" "counters_ok s1"
    "sieve s1 = (sieve s)[i := False]" "same_cursor s s1"
    unfolding same_cursor_def by auto
  have "\<forall>i \<in> set is. i < length (sieve s1)" using Cons.prems(2) s1(3) by simp
  from Cons.IH [OF s1(2) this]
  obtain s' where s': "cross_off_all s1 is = Some s'" "counters_ok s'" "same_cursor s1 s'"
    "sieve s' = fold (\<lambda>i bs. bs[i := False]) is (sieve s1)"
    by auto
  have "same_cursor s s'" using s1(4) s'(3) by (simp add: same_cursor_def)
  then show ?case using s1 s' by simp
qed

lemma cursor_ok_reset:
  assumes "counters_ok s" "prev_stop s = 0" "count' s = 0" "counters_i s = 0"
    "counters_count s = 0" "counters_stop s = counters_dist s"
  shows "cursor_ok s"
  using assms counters_okD(6) [OF assms(1)] counters_ok_dist_pos [OF assms(1)]
  by (simp add: cursor_ok_def cursor_shape_def)

lemma cross_off_count_ok:
  assumes "counters_ok s"
  shows "\<exists>s'. cross_off_count s prime b = Some s' \<and> counters_ok s' \<and> cursor_ok s' \<and>
      prev_stop s' = 0 \<and> seg_low s' = seg_low s \<and>
      sieve s' = map (\<lambda>i. sieve s ! i \<and> \<not> prime dvd (seg_low s + i)) [0..<length (sieve s)]"
proof -
  let ?r = "reset_counters s"
  have ssr: "same_sieve s ?r" by (simp add: same_sieve_def reset_counters_def)
  have okr: "counters_ok ?r" using assms same_sieve_ok [OF ssr] by simp
  have rng: "\<forall>i \<in> set (multiples_in s prime). i < length (sieve ?r)"
    by (simp add: multiples_in_def reset_counters_def)
  from cross_off_all_ok [OF okr rng]
  obtain s' where s': "cross_off_all ?r (multiples_in s prime) = Some s'" "counters_ok s'"
    "same_cursor ?r s'"
    "sieve s' = fold (\<lambda>i bs. bs[i := False]) (multiples_in s prime) (sieve ?r)"
    by auto
  have cur: "prev_stop s' = 0" "count' s' = 0" "counters_i s' = 0" "counters_count s' = 0"
    "counters_stop s' = counters_dist s'" "seg_low s' = seg_low s"
    using s'(3) by (simp_all add: same_cursor_def reset_counters_def)
  have cok: "cursor_ok s'" using s'(2) cur(1-5) by (rule cursor_ok_reset)
  have "sieve s' = map (\<lambda>i. sieve s ! i \<and> \<not> prime dvd (seg_low s + i)) [0..<length (sieve s)]"
  proof (rule nth_equalityI)
    show "length (sieve s') =
        length (map (\<lambda>i. sieve s ! i \<and> \<not> prime dvd (seg_low s + i)) [0..<length (sieve s)])"
      using s'(4) by (simp add: reset_counters_def)
  next
    fix j assume "j < length (sieve s')"
    then have j: "j < length (sieve s)" using s'(4) by (simp add: reset_counters_def)
    then show "sieve s' ! j =
        map (\<lambda>i. sieve s ! i \<and> \<not> prime dvd (seg_low s + i)) [0..<length (sieve s)] ! j"
      using s'(4) by (simp add: fold_clear_nth reset_counters_def multiples_in_def)
  qed
  then show ?thesis
    using s'(1,2) cok cur by (simp add: cross_off_count_def)
qed

lemma pre_sieve_ok:
  assumes "even low" "high - low < 2 ^ 64"
  shows "counters_ok (pre_sieve primes c low high k)"
    and "cursor_ok (pre_sieve primes c low high k)"
    and "prev_stop (pre_sieve primes c low high k) = 0"
    and "sieve (pre_sieve primes c low high k) = pre_sieve_bits primes c low high"
    and "seg_low (pre_sieve primes c low high k) = low"
proof -
  let ?s = "pre_sieve primes c low high k"
  let ?bits = "pre_sieve_bits primes c low high"
  have fields: "sieve ?s = ?bits" "counters_dist ?s = 2 ^ k" "counters_dist_log2 ?s = k"
    "total_count ?s = popcount ?bits"
    "counters ?s = map (\<lambda>j. bits_in ?bits (j * 2 ^ k) ((j + 1) * 2 ^ k))
       [0..<length ?bits div 2 ^ k + 1]"
    "prev_stop ?s = 0" "count' ?s = 0" "counters_i ?s = 0" "counters_count ?s = 0"
    "counters_stop ?s = 2 ^ k" "seg_low ?s = low"
    by (simp_all add: pre_sieve_def reset_counters_def Let_def)
  have len: "length ?bits = high - low" by (simp add: pre_sieve_bits_def)
  have b0: "bits_in ?bits 0 1 = 0"
    using assms(1) by (simp add: bits_in_single pre_sieve_bits_def)
  have cover: "length ?bits < (length ?bits div 2 ^ k + 1) * 2 ^ k"
    using dividend_less_div_times [of "2 ^ k" "length ?bits"] by (simp add: add.commute)
  show ok: "counters_ok ?s"
    unfolding counters_ok_def fields
    using cover len assms(2) b0 by simp
  show "cursor_ok ?s"
    using ok fields(6-10) fields(2) by (intro cursor_ok_reset) simp_all
  show "prev_stop ?s = 0" "sieve ?s = ?bits" "seg_low ?s = low"
    using fields by simp_all
qed

lemma take_popcount: "popcount (take m bits) = bits_in bits 0 m"
proof (cases "m \<le> length bits")
  case True
  have "bits_in (take m bits) 0 m = bits_in bits 0 m"
    using True by (intro bits_in_cong) simp
  then show ?thesis
    using bits_in_popcount [of "take m bits"] True by (simp add: min_absorb2)
next
  case False
  then show ?thesis by (simp add: bits_in_total)
qed

lemma run_ops_correct:
  assumes "counters_ok s" "cursor_ok s" "stops_in_range (length (sieve s)) ops"
    "stops_monotone (prev_stop s) ops"
  shows "\<exists>s'. run_ops s ops = Some (brute_counts (seg_low s) (sieve s) ops, s')"
  using assms
proof (induction ops arbitrary: s)
  case Nil
  show ?case by simp
next
  case (Cons op ops)
  show ?case
  proof (cases op)
    case (Count stop)
    then have st: "prev_stop s \<le> stop" "stop < length (sieve s)"
      "stops_in_range (length (sieve s)) ops" "stops_monotone stop ops"
      using Cons.prems by simp_all
    from Sieve_count_correct [OF Cons.prems(1,2) st(1,2)]
    obtain s1 where s1: "Sieve_count s stop = Some (bits_in (sieve s) 0 (stop + 1), s1)"
      "same_sieve s s1" "cursor_ok s1" "prev_stop s1 = stop"
      by auto
    have sv: "sieve s1 = sieve s" "seg_low s1 = seg_low s"
      using s1(2) by (simp_all add: same_sieve_def)
    have ok1: "counters_ok s1" using Cons.prems(1) same_sieve_ok [OF s1(2)] by simp
    from Cons.IH [OF ok1 s1(3)] st(3,4) s1(4) sv
    obtain s' where "run_ops s1 ops = Some (brute_counts (seg_low s) (sieve s) ops, s')"
      by auto
    then show ?thesis using Count s1(1) by (simp add: take_popcount)
  next
    case (CrossOffCount prime b)
    then have st: "stops_in_range (length (sieve s)) ops" "stops_monotone 0 ops"
      using Cons.prems by simp_all
    from cross_off_count_ok [OF Cons.prems(1), of prime b]
    obtain s1 where s1: "cross_off_count s prime b = Some s1" "counters_ok s1" "cursor_ok s1"
      "prev_stop s1 = 0" "seg_low s1 = seg_low s"
      "sieve s1 = map (\<lambda>i. sieve s ! i \<and> \<not> prime dvd (seg_low s + i)) [0..<length (sieve s)]"
      by auto
    have len: "length (sieve s1) = length (sieve s)" using s1(6) by simp
    from Cons.IH [OF s1(2,3)] st s1(4) len
    obtain s' where "run_ops s1 ops = Some (brute_counts (seg_low s1) (sieve s1) ops, s')"
      by auto
    then show ?thesis using CrossOffCount s1(1,5,6) by simp
  qed
qed

lemma run_ops_inv:
  assumes "counters_ok s" "cursor_shape s" "stops_in_range (length (sieve s)) ops"
  shows "\<exists>rs s'. run_ops s ops = Some (rs, s') \<and> counters_ok s' \<and> cursor_shape s' \<and>
      length (sieve s') = length (sieve s)"
  using assms
proof (induction ops arbitrary: s)
  case Nil
  then show ?case by simp
next
  case (Cons op ops)
  show ?case
  proof (cases op)
    case (Count stop)
    then have st: "stop < length (sieve s)" "stops_in_range (length (sieve s)) ops"
      using Cons.prems by simp_all
    from Sieve_count_frame [OF Cons.prems(1,2) st(1)]
    obtain c s1 where s1: "Sieve_count s stop = Some (c, s1)" "same_sieve s s1" "cursor_shape s1"
      by auto
    have sv: "sieve s1 = sieve s" using s1(2) by (simp add: same_sieve_def)
    have ok1: "counters_ok s1" using Cons.prems(1) same_sieve_ok [OF s1(2)] by simp
    from Cons.IH [OF ok1 s1(3)] st(2) sv
    obtain rs s' where "run_ops s1 ops = Some (rs, s')" "counters_ok s'" "cursor_shape s'"
      "length (sieve s') = length (sieve s)"
      by auto
    then show ?thesis using Count s1(1) by simp
  next
    case (CrossOffCount prime b)
    then have st: "stops_in_range (length (sieve s)) ops" using Cons.prems by simp
    from cross_off_count_ok [OF Cons.prems(1), of prime b]
    obtain s1 where s1: "cross_off_count s prime b = Some s1" "counters_ok s1" "cursor_ok s1"
      "sieve s1 = map (\<lambda>i. sieve s ! i \<and> \<not> prime dvd (seg_low s + i)) [0..<length (sieve s)]"
      by auto
    have len: "length (sieve s1) = length (sieve s)" using s1(4) by simp
    from Cons.IH [OF s1(2) cursor_ok_shape [OF s1(3)]] st len
    obtain rs s' where "run_ops s1 ops = Some (rs, s')" "counters_ok s'" "cursor_shape s'"
      "length (sieve s') = length (sieve s)"
      by auto
    then show ?thesis using CrossOffCount s1(1) by simp
  qed
qed

text \<open>An example: the segment \<open>[0, 16)\<close> pre-sieved with the prime 2, counters of 4 positions.\<close>

definition example_ops :: "sieve_op list" where
  "example_ops = [Count 3, Count 3, Count 10, CrossOffCount 3 2, Count 2, Count 15]"

lemma example_ops_ok: "stops_in_range (16 - 0) example_ops" "stops_monotone 0 example_ops"
  by (simp_all add: example_ops_def)

lemma example_brute:
  "brute_counts 0 (pre_sieve_bits [0, 2, 3, 5, 7] 1 0 16) example_ops = [2, 2, 5, 1, 5]"
  by code_simp

lemma example_run:
  "map_option fst (run_ops (pre_sieve [0, 2, 3, 5, 7] 1 0 16 2) example_ops) = Some [2, 2, 5, 1, 5]"
  by code_simp

lemma example_state:
  "map_option (\<lambda>(rs, s'). (total_count s', counters s', popcount (sieve s')))
     (run_ops (pre_sieve [0, 2, 3, 5, 7] 1 0 16 2) example_ops) = Some (5, [1, 2, 1, 1, 0], 5)"
  by code_simp

text \<open>
  C1. From the state that \<^verbatim>\<open>pre_sieve\<close> leaves, through any interleaving of
  \<^verbatim>\<open>cross_off_count\<close> and \<^verbatim>\<open>count\<close> operations whose stops are inside the segment
  and non-decreasing (from one \<^verbatim>\<open>cross_off_count\<close> to the next), every
  \<^verbatim>\<open>count(stop)\<close> returns the number of 1 bits of the sieve at the positions 0 through
  \<open>stop\<close>, as counted one by one on the plain bit array.
\<close>

theorem count_agrees_with_popcount:
  assumes "even low" "high - low < 2 ^ 64"
    and "stops_in_range (high - low) ops" "stops_monotone 0 ops"
  shows "\<exists>s'. run_ops (pre_sieve primes c low high k) ops =
      Some (brute_counts low (pre_sieve_bits primes c low high) ops, s')"
proof -
  note ps = pre_sieve_ok [OF assms(1,2), of primes c k]
  have len: "length (sieve (pre_sieve primes c low high k)) = high - low"
    using ps(4) by (simp add: pre_sieve_bits_def)
  show ?thesis
    using run_ops_correct [OF ps(1,2), of ops] assms(3,4) len ps(3,4,5) by simp
qed

theorem count_agrees_with_popcount_witness:
  "even (0 :: nat) \<and> stops_in_range (16 - 0) example_ops \<and> stops_monotone 0 example_ops \<and>
   map_option fst (run_ops (pre_sieve [0, 2, 3, 5, 7] 1 0 16 2) example_ops) =
     Some (brute_counts 0 (pre_sieve_bits [0, 2, 3, 5, 7] 1 0 16) example_ops) \<and>
   brute_counts 0 (pre_sieve_bits [0, 2, 3, 5, 7] 1 0 16) example_ops = [2, 2, 5, 1, 5]"
proof -
  have e: "even (0 :: nat)" and b: "16 - 0 < (2 :: nat) ^ 64" by simp_all
  from count_agrees_with_popcount [OF e b example_ops_ok, of "[0, 2, 3, 5, 7]" 1 2]
  obtain s' where "run_ops (pre_sieve [0, 2, 3, 5, 7] 1 0 16 2) example_ops =
      Some (brute_counts 0 (pre_sieve_bits [0, 2, 3, 5, 7] 1 0 16) example_ops, s')"
    by auto
  then show ?thesis using example_ops_ok example_brute by simp
qed

text \<open>
  C2. After \<^verbatim>\<open>pre_sieve\<close> and any sequence of \<^verbatim>\<open>cross_off_count\<close> and \<^verbatim>\<open>count\<close>
  operations on the segment, the total count, the sum of the counters and the number of
  1 bits of the sieve are equal. A cross-off step at a position of the sieve then takes 1
  from the total count and from the one counter of the bucket of the position if the bit
  was 1, takes nothing if it was 0, and keeps the three numbers equal.
\<close>

theorem counters_invariant:
  assumes "even low" "high - low < 2 ^ 64" "stops_in_range (high - low) ops"
  shows "\<exists>rs s'. run_ops (pre_sieve primes c low high k) ops = Some (rs, s') \<and>
      total_count s' = sum_list (counters s') \<and> sum_list (counters s') = popcount (sieve s') \<and>
      (\<forall>i < length (sieve s'). \<exists>s''. cross_off_bit s' i = Some s'' \<and>
         sieve s'' = (sieve s')[i := False] \<and>
         total_count s'' = total_count s' - (if sieve s' ! i then 1 else 0) \<and>
         counters s'' = (counters s')[i div counters_dist s' :=
             counters s' ! (i div counters_dist s') - (if sieve s' ! i then 1 else 0)] \<and>
         total_count s'' = sum_list (counters s'') \<and>
         sum_list (counters s'') = popcount (sieve s''))"
proof -
  note ps = pre_sieve_ok [OF assms(1,2), of primes c k]
  have len: "length (sieve (pre_sieve primes c low high k)) = high - low"
    using ps(4) by (simp add: pre_sieve_bits_def)
  from run_ops_inv [OF ps(1) cursor_ok_shape [OF ps(2)], of ops] assms(3) len
  obtain rs s' where run: "run_ops (pre_sieve primes c low high k) ops = Some (rs, s')"
    and ok: "counters_ok s'"
    by auto
  have eq: "total_count s' = sum_list (counters s')" "sum_list (counters s') = popcount (sieve s')"
    using counters_ok_sum [OF ok] counters_okD(5) [OF ok] by simp_all
  have step: "\<exists>s''. cross_off_bit s' i = Some s'' \<and>
         sieve s'' = (sieve s')[i := False] \<and>
         total_count s'' = total_count s' - (if sieve s' ! i then 1 else 0) \<and>
         counters s'' = (counters s')[i div counters_dist s' :=
             counters s' ! (i div counters_dist s') - (if sieve s' ! i then 1 else 0)] \<and>
         total_count s'' = sum_list (counters s'') \<and>
         sum_list (counters s'') = popcount (sieve s'')"
    if "i < length (sieve s')" for i
  proof -
    from cross_off_bit_ok [OF ok that]
    obtain s'' where s'': "cross_off_bit s' i = Some s''" "counters_ok s''"
      "sieve s'' = (sieve s')[i := False]"
      "total_count s'' = total_count s' - (if sieve s' ! i then 1 else 0)"
      "counters s'' = (counters s')[i div counters_dist s' :=
          counters s' ! (i div counters_dist s') - (if sieve s' ! i then 1 else 0)]"
      by auto
    show ?thesis
      using s'' counters_ok_sum [OF s''(2)] counters_okD(5) [OF s''(2)] by simp
  qed
  show ?thesis using run eq step by blast
qed

theorem counters_invariant_witness:
  "even (0 :: nat) \<and> stops_in_range (16 - 0) example_ops \<and>
   map_option (\<lambda>(rs, s'). (total_count s', counters s', popcount (sieve s')))
     (run_ops (pre_sieve [0, 2, 3, 5, 7] 1 0 16 2) example_ops) = Some (5, [1, 2, 1, 1, 0], 5) \<and>
   sum_list [1, 2, 1, 1, 0 :: nat] = 5"
proof -
  have e: "even (0 :: nat)" and b: "16 - 0 < (2 :: nat) ^ 64" by simp_all
  from counters_invariant [OF e b example_ops_ok(1), of "[0, 2, 3, 5, 7]" 1 2]
  obtain rs s' where "run_ops (pre_sieve [0, 2, 3, 5, 7] 1 0 16 2) example_ops = Some (rs, s')"
    "total_count s' = sum_list (counters s')"
    by auto
  then show ?thesis using example_ops_ok example_state by simp
qed

section \<open>The special leaves of pi_lmo5.cpp: one segment\<close>

text \<open>
  The two \<^verbatim>\<open>for\<close> loops over \<open>b\<close> of \<^verbatim>\<open>S2\<close> for one segment \<open>[low, high)\<close>. Each
  returns whether it left by \<^verbatim>\<open>goto next_segment\<close>, the index \<open>b\<close> it stopped at, the
  sieve, the vector \<^verbatim>\<open>phi\<close> and \<^verbatim>\<open>s2\<close>. The vectors are lists; a read or write outside
  a vector is \<open>None\<close>.
\<close>

function S2_sqfree ::
  "int \<Rightarrow> int \<Rightarrow> int \<Rightarrow> int \<Rightarrow> int list \<Rightarrow> int list \<Rightarrow> int list \<Rightarrow> int \<Rightarrow> int \<Rightarrow> Sieve \<Rightarrow>
   int list \<Rightarrow> int \<Rightarrow> (bool \<times> int \<times> Sieve \<times> int list \<times> int) option" where
  "S2_sqfree x y low high primes lpf mu pi_sqrty b sv phi s2 =
     (if b \<le> pi_sqrty then
        (case at_index primes b of
           None \<Rightarrow> None
         | Some prime \<Rightarrow>
             (let min_m = sqfree_min_m x y prime high;
                  max_m = sqfree_max_m x y prime low
              in if prime \<ge> max_m then Some (True, b, sv, phi, s2)
                 else
                   (case at_index phi b of
                      None \<Rightarrow> None
                    | Some phi_b \<Rightarrow>
                        (case sqfree_leaves Sieve_count x prime low mu lpf phi_b min_m max_m sv s2 of
                           None \<Rightarrow> None
                         | Some (sv1, s2') \<Rightarrow>
                             (let phi' = phi[nat b := phi_b + int (get_total_count sv1)]
                              in case cross_off_count sv1 (nat prime) (nat b) of
                                   None \<Rightarrow> None
                                 | Some sv2 \<Rightarrow>
                                     S2_sqfree x y low high primes lpf mu pi_sqrty (b + 1) sv2
                                       phi' s2')))))
      else Some (False, b, sv, phi, s2))"
  by pat_completeness auto
termination
  by (relation "measure (\<lambda>(x, y, low, high, primes, lpf, mu, pi_sqrty, b, sv, phi, s2).
        nat (pi_sqrty + 1 - b))") auto

function S2_twoprime ::
  "int \<Rightarrow> int \<Rightarrow> int \<Rightarrow> int \<Rightarrow> int list \<Rightarrow> int list \<Rightarrow> int \<Rightarrow> int \<Rightarrow> Sieve \<Rightarrow>
   int list \<Rightarrow> int \<Rightarrow> (bool \<times> int \<times> Sieve \<times> int list \<times> int) option" where
  "S2_twoprime x y low high primes pi_tab pi_y b sv phi s2 =
     (if b < pi_y then
        (case at_index primes b of
           None \<Rightarrow> None
         | Some prime \<Rightarrow>
             (case twoprime_l pi_tab x y prime low of
                None \<Rightarrow> None
              | Some l \<Rightarrow>
                  (let min_m = twoprime_min_m x prime high
                   in case at_index primes l of
                        None \<Rightarrow> None
                      | Some primes_l \<Rightarrow>
                          if prime \<ge> primes_l then Some (True, b, sv, phi, s2)
                          else
                            (case at_index phi b of
                               None \<Rightarrow> None
                             | Some phi_b \<Rightarrow>
                                 (case twoprime_leaves Sieve_count x prime low primes phi_b min_m l
                                         sv s2 of
                                    None \<Rightarrow> None
                                  | Some (sv1, s2') \<Rightarrow>
                                      (let phi' = phi[nat b := phi_b + int (get_total_count sv1)]
                                       in case cross_off_count sv1 (nat prime) (nat b) of
                                            None \<Rightarrow> None
                                          | Some sv2 \<Rightarrow>
                                              S2_twoprime x y low high primes pi_tab pi_y (b + 1)
                                                sv2 phi' s2'))))))
      else Some (False, b, sv, phi, s2))"
  by pat_completeness auto
termination
  by (relation "measure (\<lambda>(x, y, low, high, primes, pi_tab, pi_y, b, sv, phi, s2).
        nat (pi_y - b))") auto

declare S2_sqfree.simps [simp del] S2_twoprime.simps [simp del]

text \<open>
  The body of the loop over the segments: \<^verbatim>\<open>pre_sieve\<close>, then the two loops. The result
  is the index \<open>b\<close> at which the loops stopped, and the values of \<^verbatim>\<open>phi\<close> and \<^verbatim>\<open>s2\<close>
  that the next segment starts from. \<open>k\<close> is the logarithm of the counter distance that
  the sieve chooses for the segment.
\<close>

definition S2_segment ::
  "int \<Rightarrow> int \<Rightarrow> int \<Rightarrow> int list \<Rightarrow> int list \<Rightarrow> int list \<Rightarrow> int list \<Rightarrow> int \<Rightarrow> int \<Rightarrow> nat \<Rightarrow>
   int \<Rightarrow> int \<Rightarrow> int list \<Rightarrow> int \<Rightarrow> (int \<times> int list \<times> int) option" where
  "S2_segment x y c primes lpf mu pi_tab pi_sqrty pi_y k low high phi s2 =
     (let sv = pre_sieve (map nat primes) (nat c) (nat low) (nat high) k;
          b = c + 1
      in case S2_sqfree x y low high primes lpf mu pi_sqrty b sv phi s2 of
           None \<Rightarrow> None
         | Some (next_segment, b1, sv1, phi1, s21) \<Rightarrow>
             if next_segment then Some (b1, phi1, s21)
             else
               (case S2_twoprime x y low high primes pi_tab pi_y b1 sv1 phi1 s21 of
                  None \<Rightarrow> None
                | Some (next_segment', b2, sv2, phi2, s22) \<Rightarrow> Some (b2, phi2, s22)))"

subsection \<open>What a segment adds to phi\<close>

lemma count_loop_same: "count_loop s stop start = Some (s', start') \<Longrightarrow> same_sieve s s'"
proof (induction s stop start rule: count_loop.induct)
  case (1 s stop start)
  show ?case
  proof (cases "counters_stop s \<le> stop")
    case False
    then show ?thesis using "1.prems" by (simp add: count_loop.simps [of s])
  next
    case True
    let ?s1 = "s\<lparr>counters_stop := counters_stop s + counters_dist s,
        counters_count := counters_count s + counters s ! counters_i s,
        counters_i := counters_i s + 1,
        count' := counters_count s + counters s ! counters_i s\<rparr>"
    from True "1.prems" have i: "counters_i s < length (counters s)"
      and run: "count_loop ?s1 stop (counters_stop s) = Some (s', start')"
      by (auto simp: count_loop.simps [of s] split: if_splits)
    have "same_sieve s ?s1" by (simp add: same_sieve_def)
    then show ?thesis using "1.IH" [OF True i run] same_sieve_trans by blast
  qed
qed

lemma Sieve_count_same: "Sieve_count s stop = Some (c, s') \<Longrightarrow> same_sieve s s'"
proof -
  assume run: "Sieve_count s stop = Some (c, s')"
  then obtain s2 start' where
    loop: "count_loop (s\<lparr>prev_stop := stop\<rparr>) stop (prev_stop s + 1) = Some (s2, start')"
    and s': "s' = s2\<lparr>count' := count' s2 + count_between (sieve s2) start' stop\<rparr>"
    by (auto simp: Sieve_count_def Let_def split: option.splits)
  have "same_sieve (s\<lparr>prev_stop := stop\<rparr>) s2" using loop by (rule count_loop_same)
  then show ?thesis using s' by (simp add: same_sieve_def)
qed

lemma sqfree_leaves_same:
  "sqfree_leaves Sieve_count x prime low mu lpf phi_b min_m m sv s2 = Some (sv', s2') \<Longrightarrow>
   same_sieve sv sv'"
proof (induction Sieve_count x prime low mu lpf phi_b min_m m sv s2 rule: sqfree_leaves.induct)
  case (1 x prime low mu lpf phi_b min_m m st s2)
  note unf = "1.prems" [unfolded sqfree_leaves.simps [of _ _ _ _ _ _ _ _ m]]
  show ?case
  proof (cases "m > min_m")
    case False
    with unf show ?thesis by simp
  next
    case True
    from True unf obtain mu_m lpf_m where
      rd: "at_index mu m = Some mu_m" "at_index lpf m = Some lpf_m"
      by (auto split: option.splits)
    show ?thesis
    proof (cases "mu_m \<noteq> 0 \<and> prime < lpf_m")
      case leaf: True
      from unf True rd leaf obtain c st' where
        cnt: "Sieve_count st (u64_of_int (cpp_div x (prime * m) - low)) = Some (c, st')"
        and run: "sqfree_leaves Sieve_count x prime low mu lpf phi_b min_m (m - 1) st'
            (s2 - mu_m * (phi_b + int c)) = Some (sv', s2')"
        by (auto simp: Let_def split: option.splits)
      have "same_sieve st' sv'"
        using "1.hyps"(1) [OF True _ rd(1) rd(2) leaf refl refl _ _ refl run] cnt by simp
      then show ?thesis using Sieve_count_same [OF cnt] same_sieve_trans by blast
    next
      case noleaf: False
      have run: "sqfree_leaves Sieve_count x prime low mu lpf phi_b min_m (m - 1) st s2 =
          Some (sv', s2')"
        using unf True rd noleaf by simp
      show ?thesis using "1.hyps"(2) [OF True _ rd(1) rd(2) noleaf run] by simp
    qed
  qed
qed

lemma twoprime_leaves_same:
  "twoprime_leaves Sieve_count x prime low primes phi_b min_m l sv s2 = Some (sv', s2') \<Longrightarrow>
   same_sieve sv sv'"
proof (induction Sieve_count x prime low primes phi_b min_m l sv s2 rule: twoprime_leaves.induct)
  case (1 x prime low primes phi_b min_m l st s2)
  note unf = "1.prems" [unfolded twoprime_leaves.simps [of _ _ _ _ _ _ _ l]]
  from unf obtain q where q: "at_index primes l = Some q"
    by (auto split: option.splits)
  show ?case
  proof (cases "q > min_m")
    case False
    with unf q show ?thesis by simp
  next
    case True
    from unf True q obtain c st' where
      cnt: "Sieve_count st (u64_of_int (cpp_div x (prime * q) - low)) = Some (c, st')"
      and run: "twoprime_leaves Sieve_count x prime low primes phi_b min_m (l - 1) st'
          (s2 + (phi_b + int c)) = Some (sv', s2')"
      by (auto simp: Let_def split: option.splits)
    have "same_sieve st' sv'"
      using "1.hyps" [OF q True refl refl _ _ refl run] cnt by simp
    then show ?thesis using Sieve_count_same [OF cnt] same_sieve_trans by blast
  qed
qed

lemma pre_sieve_bits_step:
  assumes "1 \<le> b"
  shows "map (\<lambda>i. pre_sieve_bits P (b - 1) L H ! i \<and> \<not> P ! b dvd (L + i))
      [0..<length (pre_sieve_bits P (b - 1) L H)] = pre_sieve_bits P b L H"
proof (rule nth_equalityI)
  show "length (map (\<lambda>i. pre_sieve_bits P (b - 1) L H ! i \<and> \<not> P ! b dvd (L + i))
      [0..<length (pre_sieve_bits P (b - 1) L H)]) = length (pre_sieve_bits P b L H)"
    by (simp add: pre_sieve_bits_def)
next
  fix i
  assume "i < length (map (\<lambda>i. pre_sieve_bits P (b - 1) L H ! i \<and> \<not> P ! b dvd (L + i))
      [0..<length (pre_sieve_bits P (b - 1) L H)])"
  then have i: "i < H - L" by (simp add: pre_sieve_bits_def)
  have set: "{1..b} = insert b {1..b - 1}" using assms by auto
  have ball: "(\<forall>j \<in> {1..b}. Q j) = (Q b \<and> (\<forall>j \<in> {1..b - 1}. Q j))" for Q
    by (subst set) simp
  have l: "map (\<lambda>i. pre_sieve_bits P (b - 1) L H ! i \<and> \<not> P ! b dvd (L + i))
      [0..<length (pre_sieve_bits P (b - 1) L H)] ! i =
      ((odd (L + i) \<and> (\<forall>j \<in> {1..b - 1}. \<not> P ! j dvd (L + i))) \<and> \<not> P ! b dvd (L + i))"
    using i by (simp add: pre_sieve_bits_def)
  have r: "pre_sieve_bits P b L H ! i = (odd (L + i) \<and> (\<forall>j \<in> {1..b}. \<not> P ! j dvd (L + i)))"
    using i by (simp add: pre_sieve_bits_def)
  show "map (\<lambda>i. pre_sieve_bits P (b - 1) L H ! i \<and> \<not> P ! b dvd (L + i))
      [0..<length (pre_sieve_bits P (b - 1) L H)] ! i = pre_sieve_bits P b L H ! i"
    unfolding l r ball [of "\<lambda>j. \<not> P ! j dvd (L + i)"] by blast
qed

lemma popcount_card: "popcount (map f [L..<H]) = card {n \<in> {L..<H}. f n}"
proof -
  have "popcount (map f [L..<H]) = length (filter f [L..<H])"
    by (simp add: popcount_def filter_map comp_def)
  also have "\<dots> = card (set (filter f [L..<H]))"
    by (rule distinct_card [symmetric]) simp
  also have "set (filter f [L..<H]) = {n \<in> {L..<H}. f n}" by auto
  finally show ?thesis .
qed

text \<open>
  \<open>sieved_to P L H b sv\<close>: the sieve \<open>sv\<close> of the segment \<open>[L, H)\<close> holds the odd numbers
  that no prime \<open>P[1], \<dots>, P[b - 1]\<close> divides, and its counters are right.
  \<open>phi_added P L H b b' phi phi'\<close>: \<open>phi'\<close> is \<open>phi\<close> with, at every index \<open>j\<close> from
  \<open>b\<close> to \<open>b' - 1\<close>, the number of those numbers for \<open>j\<close> added.
\<close>

definition sieved_to :: "nat list \<Rightarrow> nat \<Rightarrow> nat \<Rightarrow> int \<Rightarrow> Sieve \<Rightarrow> bool" where
  "sieved_to P L H b sv =
     (counters_ok sv \<and> sieve sv = pre_sieve_bits P (nat b - 1) L H \<and> seg_low sv = L)"

definition phi_added :: "nat list \<Rightarrow> nat \<Rightarrow> nat \<Rightarrow> int \<Rightarrow> int \<Rightarrow> int list \<Rightarrow> int list \<Rightarrow> bool" where
  "phi_added P L H b b' phi phi' =
     (length phi' = length phi \<and>
      (\<forall>j < length phi. phi' ! j =
         (if nat b \<le> j \<and> j < nat b'
          then phi ! j + int (popcount (pre_sieve_bits P (j - 1) L H)) else phi ! j)))"

lemma phi_added_refl: "phi_added P L H b b phi phi"
  by (simp add: phi_added_def)

lemma phi_added_step:
  assumes "1 \<le> b" "at_index phi b = Some phi_b" "b + 1 \<le> b'"
    and "phi_added P L H (b + 1) b'
      (phi[nat b := phi_b + int (popcount (pre_sieve_bits P (nat b - 1) L H))]) phi'"
  shows "phi_added P L H b b' phi phi'"
proof -
  from assms(2) have b: "nat b < length phi" "phi_b = phi ! nat b"
    by (auto simp: at_index_def split: if_splits)
  have n: "nat (b + 1) = nat b + 1" using assms(1) by simp
  show ?thesis
    unfolding phi_added_def
  proof (intro conjI allI impI)
    show "length phi' = length phi" using assms(4) by (simp add: phi_added_def)
  next
    fix j assume j: "j < length phi"
    let ?phi1 = "phi[nat b := phi_b + int (popcount (pre_sieve_bits P (nat b - 1) L H))]"
    have "phi' ! j = (if nat (b + 1) \<le> j \<and> j < nat b'
        then ?phi1 ! j + int (popcount (pre_sieve_bits P (j - 1) L H)) else ?phi1 ! j)"
      using assms(4) j by (simp add: phi_added_def)
    then show "phi' ! j = (if nat b \<le> j \<and> j < nat b'
        then phi ! j + int (popcount (pre_sieve_bits P (j - 1) L H)) else phi ! j)"
      using b j n assms(3) by (cases "j = nat b") auto
  qed
qed

lemma leaves_end_step:
  assumes "1 \<le> b" "sieved_to P L H b sv" "same_sieve sv sv1"
    and "at_index primes b = Some prime" "P = map nat primes"
    and "cross_off_count sv1 (nat prime) (nat b) = Some sv2"
  shows "sieved_to P L H (b + 1) sv2"
    and "get_total_count sv1 = popcount (pre_sieve_bits P (nat b - 1) L H)"
proof -
  have sv: "counters_ok sv" "sieve sv = pre_sieve_bits P (nat b - 1) L H" "seg_low sv = L"
    using assms(2) by (simp_all add: sieved_to_def)
  have sv1: "sieve sv1 = sieve sv" "seg_low sv1 = seg_low sv" "total_count sv1 = total_count sv"
    using assms(3) by (simp_all add: same_sieve_def)
  have ok1: "counters_ok sv1" using sv(1) same_sieve_ok [OF assms(3)] by simp
  show "get_total_count sv1 = popcount (pre_sieve_bits P (nat b - 1) L H)"
    using counters_okD(5) [OF sv(1)] sv(2) sv1(3) by (simp add: get_total_count_def)
  from assms(4) have b: "nat b < length primes" "prime = primes ! nat b"
    by (auto simp: at_index_def split: if_splits)
  then have pb: "P ! nat b = nat prime" using assms(5) by simp
  have nb: "1 \<le> nat b" "nat (b + 1) - 1 = nat b" using assms(1) by simp_all
  from cross_off_count_ok [OF ok1, of "nat prime" "nat b"] assms(6)
  have r: "counters_ok sv2" "seg_low sv2 = seg_low sv1"
    "sieve sv2 = map (\<lambda>i. sieve sv1 ! i \<and> \<not> nat prime dvd (seg_low sv1 + i))
       [0..<length (sieve sv1)]"
    by auto
  have "sieve sv2 = pre_sieve_bits P (nat b) L H"
    using r(3) pre_sieve_bits_step [OF nb(1), of P L H] by (simp add: sv1 sv pb)
  then show "sieved_to P L H (b + 1) sv2"
    using r(1,2) sv1(2) sv(3) nb(2) by (simp add: sieved_to_def)
qed

lemma S2_sqfree_phi:
  assumes "S2_sqfree x y low high primes lpf mu pi_sqrty b sv phi s2 = Some (g, b', sv', phi', s2')"
    and "1 \<le> b" "sieved_to (map nat primes) L H b sv"
  shows "b \<le> b' \<and> sieved_to (map nat primes) L H b' sv' \<and>
      phi_added (map nat primes) L H b b' phi phi'"
  using assms
proof (induction x y low high primes lpf mu pi_sqrty b sv phi s2 rule: S2_sqfree.induct)
  case (1 x y low high primes lpf mu pi_sqrty b sv phi s2)
  note unf = "1.prems"(1) [unfolded S2_sqfree.simps [of _ _ _ _ _ _ _ _ b]]
  show ?case
  proof (cases "b \<le> pi_sqrty")
    case False
    with unf "1.prems"(3) show ?thesis by (simp add: phi_added_refl)
  next
    case True
    from True unf obtain prime where prime: "at_index primes b = Some prime"
      by (auto split: option.splits)
    let ?min_m = "sqfree_min_m x y prime high"
    let ?max_m = "sqfree_max_m x y prime low"
    show ?thesis
    proof (cases "prime \<ge> ?max_m")
      case goto: True
      with True unf prime "1.prems"(3) show ?thesis by (simp add: phi_added_refl Let_def)
    next
      case nogoto: False
      from True unf prime nogoto obtain phi_b sv1 s21 sv2 where
        phi_b: "at_index phi b = Some phi_b"
        and leaves: "sqfree_leaves Sieve_count x prime low mu lpf phi_b ?min_m ?max_m sv s2 =
            Some (sv1, s21)"
        and cross: "cross_off_count sv1 (nat prime) (nat b) = Some sv2"
        and rec: "S2_sqfree x y low high primes lpf mu pi_sqrty (b + 1) sv2
            (phi[nat b := phi_b + int (get_total_count sv1)]) s21 = Some (g, b', sv', phi', s2')"
        by (auto simp: Let_def split: option.splits)
      note st = leaves_end_step [OF "1.prems"(2,3) sqfree_leaves_same [OF leaves] prime refl cross]
      have b1: "1 \<le> b + 1" using "1.prems"(2) by simp
      have ng: "\<not> sqfree_max_m x y prime low \<le> prime" using nogoto by simp
      note ih' = "1.IH" [OF True prime refl refl ng phi_b leaves refl refl cross rec b1 st(1)]
      show ?thesis
        using ih' phi_added_step [OF "1.prems"(2) phi_b, of b' "map nat primes" L H phi'] st(2)
        by simp
    qed
  qed
qed

lemma S2_twoprime_phi:
  assumes "S2_twoprime x y low high primes pi_tab pi_y b sv phi s2 = Some (g, b', sv', phi', s2')"
    and "1 \<le> b" "sieved_to (map nat primes) L H b sv"
  shows "b \<le> b' \<and> sieved_to (map nat primes) L H b' sv' \<and>
      phi_added (map nat primes) L H b b' phi phi'"
  using assms
proof (induction x y low high primes pi_tab pi_y b sv phi s2 rule: S2_twoprime.induct)
  case (1 x y low high primes pi_tab pi_y b sv phi s2)
  note unf = "1.prems"(1) [unfolded S2_twoprime.simps [of _ _ _ _ _ _ _ b]]
  show ?case
  proof (cases "b < pi_y")
    case False
    with unf "1.prems"(3) show ?thesis by (simp add: phi_added_refl)
  next
    case True
    from True unf obtain prime l primes_l where prime: "at_index primes b = Some prime"
      and l: "twoprime_l pi_tab x y prime low = Some l"
      and primes_l: "at_index primes l = Some primes_l"
      by (auto simp: Let_def split: option.splits)
    let ?min_m = "twoprime_min_m x prime high"
    show ?thesis
    proof (cases "prime \<ge> primes_l")
      case goto: True
      with True unf prime l primes_l "1.prems"(3) show ?thesis
        by (simp add: phi_added_refl Let_def)
    next
      case nogoto: False
      from True unf prime l primes_l nogoto obtain phi_b sv1 s21 sv2 where
        phi_b: "at_index phi b = Some phi_b"
        and leaves: "twoprime_leaves Sieve_count x prime low primes phi_b ?min_m l sv s2 =
            Some (sv1, s21)"
        and cross: "cross_off_count sv1 (nat prime) (nat b) = Some sv2"
        and rec: "S2_twoprime x y low high primes pi_tab pi_y (b + 1) sv2
            (phi[nat b := phi_b + int (get_total_count sv1)]) s21 = Some (g, b', sv', phi', s2')"
        by (auto simp: Let_def split: option.splits)
      note st = leaves_end_step [OF "1.prems"(2,3) twoprime_leaves_same [OF leaves] prime refl
          cross]
      have b1: "1 \<le> b + 1" using "1.prems"(2) by simp
      have ng: "\<not> primes_l \<le> prime" using nogoto by simp
      note ih = "1.IH" [OF True prime l refl primes_l ng phi_b leaves refl refl cross rec b1
          st(1)]
      show ?thesis
        using ih phi_added_step [OF "1.prems"(2) phi_b, of b' "map nat primes" L H phi'] st(2)
        by simp
    qed
  qed
qed

text \<open>
  The tables of \<^verbatim>\<open>pi_lmo5\<close> for \<open>y = 20\<close>: \<^verbatim>\<open>generate_primes\<close>, \<^verbatim>\<open>PiTable\<close>,
  \<^verbatim>\<open>generate_moebius\<close> and \<^verbatim>\<open>generate_lpf\<close>.
\<close>

definition primes_to_20 :: "int list" where
  "primes_to_20 = [0, 2, 3, 5, 7, 11, 13, 17, 19]"

definition pi_to_20 :: "int list" where
  "pi_to_20 = [0, 0, 1, 2, 2, 3, 3, 4, 4, 4, 4, 5, 5, 6, 6, 6, 6, 7, 7, 8, 8]"

definition mu_to_20 :: "int list" where
  "mu_to_20 = [0, 1, -1, -1, 0, -1, 1, -1, 0, 0, 1, -1, 0, -1, 1, 1, 0, -1, 0, -1, 0]"

definition lpf_to_20 :: "int list" where
  "lpf_to_20 = [0, 2147483647, 2, 3, 2, 5, 2, 7, 2, 3, 2, 11, 2, 13, 2, 3, 2, 17, 2, 19, 2]"

lemma example_segment:
  "S2_segment 1000 20 6 primes_to_20 lpf_to_20 mu_to_20 pi_to_20 2 8 2 0 50 (replicate 9 0) 0 =
     Some (8, [0, 0, 0, 0, 0, 0, 0, 10, 0], 1)"
  by code_simp

lemma example_total_before:
  "popcount (pre_sieve_bits (map nat primes_to_20) 6 0 50) = 10"
  by code_simp

lemma example_total_after:
  "map_option (total_count \<circ> snd)
     (run_ops (pre_sieve (map nat primes_to_20) 6 0 50 2) [CrossOffCount 17 7]) = Some 9"
  by code_simp

text \<open>
  C5 (as amended). At the end of a segment \<open>[low, high)\<close> of \<^verbatim>\<open>S2\<close>, for every prime index
  \<open>b\<close> whose iteration was completed in the segment, that is \<open>c < b\<close> and \<open>b\<close> below the
  index at which the loops stopped, \<^verbatim>\<open>phi[b]\<close> is its value at the start of the segment
  plus the total count of the sieve taken before \<^verbatim>\<open>cross_off_count\<close> of the prime
  \<open>p[b]\<close>: the number of odd integers of the segment that none of \<open>p[2], \<dots>, p[b - 1]\<close>
  divides. For every other index \<^verbatim>\<open>phi[b]\<close> is unchanged.
\<close>

theorem phi_segment_boundary:
  assumes "0 \<le> c" "even (nat low)" "nat high - nat low < 2 ^ 64"
    and "S2_segment x y c primes lpf mu pi_tab pi_sqrty pi_y k low high phi s2 =
      Some (b_end, phi', s2')"
  shows "length phi' = length phi \<and>
    (\<forall>j < length phi. phi' ! j =
       (if nat c < j \<and> j < nat b_end
        then phi ! j + int (popcount (pre_sieve_bits (map nat primes) (j - 1) (nat low) (nat high)))
        else phi ! j)) \<and>
    (\<forall>j. popcount (pre_sieve_bits (map nat primes) j (nat low) (nat high)) =
       card {n \<in> {nat low..<nat high}. odd n \<and> (\<forall>i \<in> {1..j}. \<not> map nat primes ! i dvd n)})"
proof -
  let ?P = "map nat primes" and ?L = "nat low" and ?H = "nat high"
  let ?sv = "pre_sieve ?P (nat c) ?L ?H k"
  note ps = pre_sieve_ok [OF assms(2,3), of ?P "nat c" k]
  have c1: "1 \<le> c + 1" and nc: "nat (c + 1) - 1 = nat c" "nat (c + 1) = nat c + 1"
    using assms(1) by simp_all
  have inv: "sieved_to ?P ?L ?H (c + 1) ?sv"
    using ps(1,4,5) nc by (simp add: sieved_to_def)
  from assms(4) obtain g b1 sv1 phi1 s21 where
    sq: "S2_sqfree x y low high primes lpf mu pi_sqrty (c + 1) ?sv phi s2 =
        Some (g, b1, sv1, phi1, s21)"
    by (auto simp: S2_segment_def Let_def split: option.splits)
  note r1 = S2_sqfree_phi [OF sq c1 inv]
  have "phi_added ?P ?L ?H (c + 1) b_end phi phi'"
  proof (cases g)
    case True
    with assms(4) sq have "b_end = b1" "phi' = phi1"
      by (simp_all add: S2_segment_def Let_def)
    with r1 show ?thesis by simp
  next
    case False
    with assms(4) sq obtain g2 sv2 where
      tp: "S2_twoprime x y low high primes pi_tab pi_y b1 sv1 phi1 s21 =
          Some (g2, b_end, sv2, phi', s2')"
      by (auto simp: S2_segment_def Let_def split: option.splits)
    have b1: "1 \<le> b1" using r1 c1 by simp
    from r1 have i1: "sieved_to ?P ?L ?H b1 sv1" by simp
    note r2 = S2_twoprime_phi [OF tp b1 i1]
    have "c + 1 \<le> b1" "b1 \<le> b_end" using r1 r2 by blast+
    then have le: "nat (c + 1) \<le> nat b1" "nat b1 \<le> nat b_end" by linarith+
    have a1: "phi_added ?P ?L ?H (c + 1) b1 phi phi1" using r1 by simp
    have a2: "phi_added ?P ?L ?H b1 b_end phi1 phi'" using r2 by simp
    show ?thesis
      unfolding phi_added_def
    proof (intro conjI allI impI)
      show "length phi' = length phi" using a1 a2 by (simp add: phi_added_def)
    next
      fix j assume j: "j < length phi"
      then have j1: "j < length phi1" using a1 by (simp add: phi_added_def)
      have e1: "phi1 ! j = (if nat (c + 1) \<le> j \<and> j < nat b1
          then phi ! j + int (popcount (pre_sieve_bits ?P (j - 1) ?L ?H)) else phi ! j)"
        using a1 j by (simp add: phi_added_def)
      have e2: "phi' ! j = (if nat b1 \<le> j \<and> j < nat b_end
          then phi1 ! j + int (popcount (pre_sieve_bits ?P (j - 1) ?L ?H)) else phi1 ! j)"
        using a2 j1 by (simp add: phi_added_def)
      show "phi' ! j = (if nat (c + 1) \<le> j \<and> j < nat b_end
          then phi ! j + int (popcount (pre_sieve_bits ?P (j - 1) ?L ?H)) else phi ! j)"
        using e1 e2 le by auto
    qed
  qed
  then have "length phi' = length phi"
    and "\<forall>j < length phi. phi' ! j =
       (if nat c < j \<and> j < nat b_end
        then phi ! j + int (popcount (pre_sieve_bits ?P (j - 1) ?L ?H)) else phi ! j)"
    using nc(2) by (simp_all add: phi_added_def Suc_le_eq)
  moreover have "\<forall>j. popcount (pre_sieve_bits ?P j ?L ?H) =
      card {n \<in> {?L..<?H}. odd n \<and> (\<forall>i \<in> {1..j}. \<not> ?P ! i dvd n)}"
    unfolding pre_sieve_bits_def by (simp add: popcount_card)
  ultimately show ?thesis by blast
qed

theorem phi_segment_boundary_witness:
  "even (nat 0) \<and> nat 50 - nat 0 < (2 :: nat) ^ 64 \<and>
   S2_segment 1000 20 6 primes_to_20 lpf_to_20 mu_to_20 pi_to_20 2 8 2 0 50 (replicate 9 0) 0 =
     Some (8, [0, 0, 0, 0, 0, 0, 0, 10, 0], 1) \<and>
   [0, 0, 0, 0, 0, 0, 0, 10, 0 :: int] ! 7 =
     replicate 9 0 ! 7 + int (popcount (pre_sieve_bits (map nat primes_to_20) 6 0 50)) \<and>
   [0, 0, 0, 0, 0, 0, 0, 10, 0 :: int] ! 8 = replicate 9 0 ! 8 \<and>
   popcount (pre_sieve_bits (map nat primes_to_20) 6 0 50) = 10"
proof -
  have c: "(0 :: int) \<le> 6" and e: "even (nat 0)" and b: "nat 50 - nat 0 < (2 :: nat) ^ 64"
    by simp_all
  from phi_segment_boundary [OF c e b example_segment]
  have "\<forall>j < 9. [0, 0, 0, 0, 0, 0, 0, 10, 0 :: int] ! j =
       (if 6 < j \<and> j < 8
        then replicate 9 0 ! j + int (popcount (pre_sieve_bits (map nat primes_to_20) (j - 1) 0 50))
        else replicate 9 0 ! j)"
    by simp
  from this [rule_format, of 7] this [rule_format, of 8]
  show ?thesis using example_segment example_total_before by simp
qed

text \<open>
  The total count that is added is the one before the cross-off of \<open>p[b]\<close>, not the one
  after it. For \<open>x = 1000\<close>, \<open>y = 20\<close>, \<open>c = 6\<close> and the segment \<open>[0, 50)\<close>, the loops
  complete \<open>b = 7\<close> (the prime 17) and \<^verbatim>\<open>phi[7]\<close> goes from 0 to 10, the number of odd
  integers below 50 that none of 3, 5, 7, 11, 13 divides (1, 17, 19, 23, 29, 31, 37, 41, 43,
  47); after \<^verbatim>\<open>cross_off_count(17, 7)\<close> the total count of the sieve is 9. And
  \<^verbatim>\<open>phi[8]\<close> stays 0, since the loop over the two-prime leaves leaves the segment at
  \<open>b = 8\<close>.
\<close>

theorem phi_after_cross_off_counterexample:
  "S2_segment 1000 20 6 primes_to_20 lpf_to_20 mu_to_20 pi_to_20 2 8 2 0 50 (replicate 9 0) 0 =
     Some (8, [0, 0, 0, 0, 0, 0, 0, 10, 0], 1) \<and>
   map_option (total_count \<circ> snd)
     (run_ops (pre_sieve (map nat primes_to_20) 6 0 50 2) [CrossOffCount 17 7]) = Some 9 \<and>
   [0, 0, 0, 0, 0, 0, 0, 10, 0 :: int] ! 7 \<noteq> replicate 9 0 ! 7 + 9"
  using example_segment example_total_after by simp

section \<open>The P2 and B kernels\<close>

subsection \<open>Primes and the prime iterators\<close>

text \<open>
  The kernels walk over the primes with the iterators of the primesieve library, which is
  not part of the sources. An iterator constructed at \<open>start\<close> returns, by
  \<^verbatim>\<open>next_prime()\<close>, the primes above \<open>start\<close> in increasing order and, by
  \<^verbatim>\<open>prev_prime()\<close>, the primes below \<open>start\<close> in decreasing order, and 0 when there is
  no prime below. The state of an iterator is the number it returned last.
\<close>

definition is_prime :: "nat \<Rightarrow> bool" where
  "is_prime n = (2 \<le> n \<and> (\<forall>d \<in> {2..<n}. \<not> d dvd n))"

definition PrimePi :: "nat \<Rightarrow> nat" where
  "PrimePi n = length (filter is_prime [0..<Suc n])"

lemma prime_factor_exists: "2 \<le> n \<Longrightarrow> \<exists>p. is_prime p \<and> p dvd n"
proof (induction n rule: less_induct)
  case (less n)
  show ?case
  proof (cases "is_prime n")
    case True
    then show ?thesis by auto
  next
    case False
    with less.prems obtain d where d: "2 \<le> d" "d < n" "d dvd n"
      by (auto simp: is_prime_def)
    from less.IH [OF d(2) d(1)] obtain p where "is_prime p" "p dvd d" by auto
    with d(3) show ?thesis by (auto intro: dvd_trans)
  qed
qed

lemma prime_above: "\<exists>p. is_prime p \<and> n < p"
proof -
  have "2 \<le> fact n + (1 :: nat)"
    using fact_ge_1 [of n, where ?'a = nat] by linarith
  from prime_factor_exists [OF this] obtain p where p: "is_prime p" "p dvd fact n + 1"
    by auto
  have "n < p"
  proof (rule ccontr)
    assume "\<not> n < p"
    then have "p dvd fact n" using p(1) by (intro dvd_fact) (auto simp: is_prime_def)
    with p(2) have "p dvd 1" using dvd_add_right_iff [of p "fact n" 1] by blast
    with p(1) show False by (simp add: is_prime_def)
  qed
  with p(1) show ?thesis by auto
qed

function next_prime_from :: "nat \<Rightarrow> nat" where
  "next_prime_from k = (if is_prime k then k else next_prime_from (Suc k))"
  by pat_completeness auto
termination
proof (relation "measure (\<lambda>k. (LEAST p. is_prime p \<and> k \<le> p) - k)")
  show "wf (measure (\<lambda>k. (LEAST p. is_prime p \<and> k \<le> p) - k))" by simp
next
  fix k assume np: "\<not> is_prime k"
  obtain q where q: "is_prime q \<and> Suc k \<le> q"
    using prime_above [of k] Suc_leI by blast
  let ?L = "LEAST p. is_prime p \<and> Suc k \<le> p"
  have L: "is_prime ?L \<and> Suc k \<le> ?L" by (rule LeastI [of _ q]) (rule q)
  have "(LEAST p. is_prime p \<and> k \<le> p) = ?L"
  proof (rule Least_equality)
    show "is_prime ?L \<and> k \<le> ?L" using L by simp
  next
    fix p assume p: "is_prime p \<and> k \<le> p"
    with np have "p \<noteq> k" by auto
    with p have "is_prime p \<and> Suc k \<le> p" by simp
    then show "?L \<le> p" by (rule Least_le)
  qed
  moreover have "?L - Suc k < ?L - k" using L by linarith
  ultimately show "(Suc k, k) \<in> measure (\<lambda>k. (LEAST p. is_prime p \<and> k \<le> p) - k)"
    by simp
qed

declare next_prime_from.simps [simp del]

definition next_prime :: "nat \<Rightarrow> nat" where
  "next_prime n = next_prime_from (Suc n)"

fun prev_prime :: "nat \<Rightarrow> nat" where
  "prev_prime 0 = 0"
| "prev_prime (Suc n) = (if is_prime n then n else prev_prime n)"

text \<open>
  Modelled from the spec: \<^verbatim>\<open>isqrt\<close> of \<^verbatim>\<open>isqrt.hpp\<close> is not among the sources; it is
  the integer square root.
\<close>

fun isqrt_nat :: "nat \<Rightarrow> nat" where
  "isqrt_nat 0 = 0"
| "isqrt_nat (Suc n) = (let r = isqrt_nat n in if (r + 1) * (r + 1) \<le> Suc n then r + 1 else r)"

definition isqrt :: "int \<Rightarrow> int" where
  "isqrt x = int (isqrt_nat (nat x))"

text \<open>
  Modelled from the spec: \<^verbatim>\<open>phi\<close> and \<^verbatim>\<open>phi_noprint\<close> are not among the sources.
  \<open>phi x a\<close> is the partial sieve function: the number of the integers from 1 to \<open>x\<close>
  that none of the first \<open>a\<close> primes divides.
\<close>

fun first_primes :: "nat \<Rightarrow> nat list" where
  "first_primes 0 = []"
| "first_primes (Suc a) =
     (let ps = first_primes a in ps @ [next_prime (if ps = [] then 0 else last ps)])"

definition phi :: "int \<Rightarrow> int \<Rightarrow> int" where
  "phi x a =
     int (length (filter (\<lambda>n. \<forall>p \<in> set (first_primes (nat a)). \<not> p dvd n) [1..<Suc (nat x)]))"

lemma isqrt_nat_spec: "isqrt_nat n * isqrt_nat n \<le> n \<and> n < (isqrt_nat n + 1) * (isqrt_nat n + 1)"
proof (induction n)
  case 0
  show ?case by simp
next
  case (Suc n)
  then show ?case by (auto simp: Let_def)
qed

lemma isqrt_less:
  assumes "2 \<le> x"
  shows "isqrt x < x"
proof -
  let ?r = "isqrt_nat (nat x)"
  have sq: "?r * ?r \<le> nat x" using isqrt_nat_spec [of "nat x"] by simp
  have "?r < nat x"
  proof (rule ccontr)
    assume "\<not> ?r < nat x"
    then have "nat x * 2 \<le> ?r * ?r" using assms by (intro mult_mono) auto
    with sq show False using assms by linarith
  qed
  then show ?thesis by (simp add: isqrt_def)
qed

text \<open>\<^verbatim>\<open>pi_simple\<close> and \<^verbatim>\<open>pi_legendre\<close> of \<^verbatim>\<open>pi_legendre.cpp\<close>.\<close>

function pi_simple :: "int \<Rightarrow> int" where
  "pi_simple x =
     (if x < 2 then 0
      else (let y = isqrt x;
                a = pi_simple y
            in phi x a + a - 1))"
  by pat_completeness auto
termination
proof (relation "measure nat")
  show "wf (measure nat)" by simp
next
  fix x y :: int
  assume "\<not> x < 2" "y = isqrt x"
  then show "(y, x) \<in> measure nat" using isqrt_less [of x] by (simp add: isqrt_def)
qed

declare pi_simple.simps [simp del]

definition pi_legendre :: "int \<Rightarrow> int" where
  "pi_legendre x =
     (if x < 2 then 0
      else (let y = isqrt x;
                a = pi_simple y;
                phi_xa = phi x a
            in phi_xa + a - 1))"

lemma next_prime_from_spec:
  "is_prime (next_prime_from k) \<and> k \<le> next_prime_from k \<and>
   (\<forall>q. k \<le> q \<and> q < next_prime_from k \<longrightarrow> \<not> is_prime q)"
proof (induction k rule: next_prime_from.induct)
  case (1 k)
  show ?case
  proof (cases "is_prime k")
    case True
    then have "next_prime_from k = k" by (simp add: next_prime_from.simps [of k])
    with True show ?thesis by auto
  next
    case False
    note ih = "1.IH" [OF False]
    have eq: "next_prime_from k = next_prime_from (Suc k)"
      using False by (simp add: next_prime_from.simps [of k])
    show ?thesis
      unfolding eq
    proof (intro conjI allI impI)
      show "is_prime (next_prime_from (Suc k))" using ih by simp
      show "k \<le> next_prime_from (Suc k)" using ih by simp
    next
      fix q assume q: "k \<le> q \<and> q < next_prime_from (Suc k)"
      show "\<not> is_prime q"
      proof (cases "q = k")
        case True
        with False show ?thesis by simp
      next
        case False
        with q have "Suc k \<le> q \<and> q < next_prime_from (Suc k)" by simp
        with ih show ?thesis by blast
      qed
    qed
  qed
qed

lemma next_prime_spec:
  shows next_prime_is_prime: "is_prime (next_prime n)"
    and next_prime_greater: "n < next_prime n"
    and next_prime_least: "n < q \<Longrightarrow> q < next_prime n \<Longrightarrow> \<not> is_prime q"
  using next_prime_from_spec [of "Suc n"] by (auto simp: next_prime_def)

lemma prev_prime_spec:
  "prev_prime n < n \<or> n = 0"
  "prev_prime n = 0 \<or> is_prime (prev_prime n)"
  "prev_prime n < q \<Longrightarrow> q < n \<Longrightarrow> \<not> is_prime q"
proof -
  show "prev_prime n < n \<or> n = 0"
    by (induction n) auto
  show "prev_prime n = 0 \<or> is_prime (prev_prime n)"
    by (induction n) auto
  show "prev_prime n < q \<Longrightarrow> q < n \<Longrightarrow> \<not> is_prime q"
  proof (induction n)
    case 0
    then show ?case by simp
  next
    case (Suc n)
    then show ?case by (cases "q = n") (auto split: if_splits)
  qed
qed


subsection \<open>The threads and the sequential fold\<close>

record ThreadResult =
  tr_sum :: int
  tr_pix :: int
  tr_iters :: int

text \<open>
  \<^verbatim>\<open>count_primes(it, prime, stop)\<close>: the result is the count and the new value of the
  reference parameter \<^verbatim>\<open>prime\<close>, which is also the state of the iterator \<^verbatim>\<open>it\<close>.
\<close>

function count_primes :: "int \<Rightarrow> int \<Rightarrow> int \<times> int" where
  "count_primes p stop =
     (if p \<le> stop
      then (let (count, p') = count_primes (int (next_prime (nat p))) stop in (count + 1, p'))
      else (0, p))"
  by pat_completeness auto
termination
proof (relation "measure (\<lambda>(p, stop). nat (stop + 1 - p))")
  show "wf (measure (\<lambda>(p, stop). nat (stop + 1 - p)))" by simp
next
  fix p stop :: int
  assume "p \<le> stop"
  moreover have "p < int (next_prime (nat p))"
    using next_prime_greater [of "nat p"] by linarith
  ultimately show "((int (next_prime (nat p)), stop), (p, stop)) \<in>
      measure (\<lambda>(p, stop). nat (stop + 1 - p))"
    by simp
qed

declare count_primes.simps [simp del]

text \<open>
  The \<^verbatim>\<open>for (; prime > start; iters++)\<close> loop of \<^verbatim>\<open>P2_thread\<close>; the loop of
  \<^verbatim>\<open>B_thread\<close> is the same text. The result is \<^verbatim>\<open>sum\<close> (here \<open>sm\<close>), \<^verbatim>\<open>pix\<close>, \<^verbatim>\<open>iters\<close> and
  \<^verbatim>\<open>next\<close>. A division by \<open>prime = 0\<close> is \<open>None\<close>.
\<close>

function P2_thread_loop ::
  "int \<Rightarrow> int \<Rightarrow> int \<Rightarrow> int \<Rightarrow> int \<Rightarrow> int \<Rightarrow> int \<Rightarrow> (int \<times> int \<times> int \<times> int) option" where
  "P2_thread_loop x start prime next sm pix iters =
     (if prime > start then
        (if prime \<le> 0 then None
         else
           (let xp = cpp_div x prime;
                (count, next') = count_primes next xp;
                pix' = pix + count;
                prime' = int (prev_prime (nat prime));
                sm' = sm + pix'
            in P2_thread_loop x start prime' next' sm' pix' (iters + 1)))
      else Some (sm, pix, iters, next))"
  by pat_completeness auto
termination
proof (relation "measure (\<lambda>(x, start, prime, next, sm, pix, iters). nat prime)")
  show "wf (measure (\<lambda>(x, start, prime, next, sm, pix, iters). nat prime))" by simp
next
  fix x start prime nx sm pix iters :: int and nx' pix' prime' sm' :: int
  assume "\<not> prime \<le> 0" "prime' = int (prev_prime (nat prime))"
  moreover have "prev_prime (nat prime) < nat prime \<or> nat prime = 0"
    by (rule prev_prime_spec(1))
  ultimately show "((x, start, prime', nx', sm', pix', iters + 1),
      (x, start, prime, nx, sm, pix, iters)) \<in>
      measure (\<lambda>(x, start, prime, next, sm, pix, iters). nat prime)"
    by auto
qed

declare P2_thread_loop.simps [simp del]

text \<open>
  \<^verbatim>\<open>P2_thread\<close> of the second \<^verbatim>\<open>P2.cpp\<close> and \<^verbatim>\<open>B_thread\<close> of \<^verbatim>\<open>B.cpp\<close>. A start of
  an iterator below 0 and a division by 0 are \<open>None\<close>.
\<close>

definition P2_thread :: "int \<Rightarrow> int \<Rightarrow> int \<Rightarrow> int \<Rightarrow> int \<Rightarrow> int \<Rightarrow> ThreadResult option" where
  "P2_thread x y z low thread_num thread_dist =
     (let low = low + thread_dist * thread_num
      in if low < z then
           (let z = min (low + thread_dist) z
            in if x < 0 \<or> low \<le> 0 \<or> z = 0 then None
               else
                 (let start = max (cpp_div x z) y;
                      stop = min (cpp_div x low) (isqrt x);
                      next = int (next_prime (nat (low - 1)));
                      prime = int (prev_prime (nat (stop + 1)))
                  in case P2_thread_loop x start prime next 0 0 0 of
                       None \<Rightarrow> None
                     | Some (sm, pix, iters, next') \<Rightarrow>
                         Some \<lparr>tr_sum = sm, tr_pix = pix + fst (count_primes next' (z - 1)),
                               tr_iters = iters\<rparr>))
         else Some \<lparr>tr_sum = 0, tr_pix = 0, tr_iters = 0\<rparr>)"

definition B_thread :: "int \<Rightarrow> int \<Rightarrow> int \<Rightarrow> int \<Rightarrow> int \<Rightarrow> int \<Rightarrow> ThreadResult option" where
  "B_thread x y z low thread_num thread_dist =
     (let low = low + thread_dist * thread_num
      in if low < z then
           (let z = min (low + thread_dist) z
            in if x < 0 \<or> low \<le> 0 \<or> z = 0 then None
               else
                 (let sqrtx = isqrt x;
                      xz = min (cpp_div x z) sqrtx;
                      stop = min (cpp_div x low) sqrtx;
                      start = max xz y;
                      next = int (next_prime (nat (low - 1)));
                      prime = int (prev_prime (nat (stop + 1)))
                  in case P2_thread_loop x start prime next 0 0 0 of
                       None \<Rightarrow> None
                     | Some (sm, pix, iters, next') \<Rightarrow>
                         Some \<lparr>tr_sum = sm, tr_pix = pix + fst (count_primes next' (z - 1)),
                               tr_iters = iters\<rparr>))
         else Some \<lparr>tr_sum = 0, tr_pix = 0, tr_iters = 0\<rparr>)"

text \<open>
  The sequential loop over the results of the threads, in thread order: the result is
  \<^verbatim>\<open>sum\<close> and \<^verbatim>\<open>pi_low_minus_1\<close>.
\<close>

fun add_results :: "ThreadResult list \<Rightarrow> int \<Rightarrow> int \<Rightarrow> int \<times> int" where
  "add_results [] sm pi_low_minus_1 = (sm, pi_low_minus_1)"
| "add_results (r # res) sm pi_low_minus_1 =
     (let thread_sum = tr_sum r + pi_low_minus_1 * tr_iters r
      in add_results res (sm + thread_sum) (pi_low_minus_1 + tr_pix r))"

text \<open>
  The \<^verbatim>\<open>while (low < z)\<close> loop of \<^verbatim>\<open>P2_OpenMP\<close> and of \<^verbatim>\<open>B_OpenMP\<close>. The class
  \<^verbatim>\<open>LoadBalancerP2\<close> is not among the sources: \<open>threads\<close> is what its \<^verbatim>\<open>get_threads()\<close>
  returns, and the list \<open>dists\<close> holds what \<^verbatim>\<open>get_thread_dist(low)\<close> returns, batch
  after batch. The loop asks for one distance for each batch; when the list has none left
  the result is \<open>None\<close>.
\<close>

fun P2_batches ::
  "int \<Rightarrow> int \<Rightarrow> int \<Rightarrow> int \<Rightarrow> int list \<Rightarrow> int \<Rightarrow> int \<Rightarrow> int \<Rightarrow> int option" where
  "P2_batches x y z threads [] low pi_low_minus_1 sm = (if low < z then None else Some sm)"
| "P2_batches x y z threads (thread_dist # dists) low pi_low_minus_1 sm =
     (if low < z then
        (case those (map (\<lambda>i. P2_thread x y z low (int i) thread_dist) [0..<nat threads]) of
           None \<Rightarrow> None
         | Some res \<Rightarrow>
             (let (sm', pi') = add_results res sm pi_low_minus_1
              in P2_batches x y z threads dists (low + thread_dist * threads) pi' sm'))
      else Some sm)"

fun B_batches ::
  "int \<Rightarrow> int \<Rightarrow> int \<Rightarrow> int \<Rightarrow> int list \<Rightarrow> int \<Rightarrow> int \<Rightarrow> int \<Rightarrow> int option" where
  "B_batches x y z threads [] low pi_low_minus_1 sm = (if low < z then None else Some sm)"
| "B_batches x y z threads (thread_dist # dists) low pi_low_minus_1 sm =
     (if low < z then
        (case those (map (\<lambda>i. B_thread x y z low (int i) thread_dist) [0..<nat threads]) of
           None \<Rightarrow> None
         | Some res \<Rightarrow>
             (let (sm', pi') = add_results res sm pi_low_minus_1
              in B_batches x y z threads dists (low + thread_dist * threads) pi' sm'))
      else Some sm)"

definition P2_OpenMP :: "int \<Rightarrow> int \<Rightarrow> int \<Rightarrow> int list \<Rightarrow> int option" where
  "P2_OpenMP x y threads dists =
     (if x < 4 then Some 0
      else
        (let a = pi_simple y;
             b = pi_simple (isqrt x)
         in if a \<ge> b then Some 0
            else
              (let sm = cpp_div ((a - 2) * (a + 1)) 2 - cpp_div ((b - 2) * (b + 1)) 2;
                   low = 2;
                   pi_low_minus_1 = 0;
                   z = cpp_div x (max y 1)
               in P2_batches x y z threads dists low pi_low_minus_1 sm)))"

text \<open>
  \<^verbatim>\<open>B_OpenMP\<close>; \<open>x\<close> is of the unsigned type \<^verbatim>\<open>T\<close>, \<open>json\<close> is what \<^verbatim>\<open>load_backup()\<close>
  returns. In \<^verbatim>\<open>B.cpp\<close> the distance of the first batch is asked for before the loop
  and the one of each later batch at the end of the batch before.
\<close>

definition B_OpenMP ::
  "json \<Rightarrow> real \<Rightarrow> nat \<Rightarrow> int \<Rightarrow> int \<Rightarrow> int \<Rightarrow> int list \<Rightarrow> real \<Rightarrow> int option" where
  "B_OpenMP json now x y z threads dists time =
     (if x < 4 then Some 0
      else
        (let low = isqrt (int x);
             pi_low_minus_1 = pi_simple (low - 1)
         in case B_resume json now (int x) y
                   \<lparr>b_low = low, b_pi_low_minus_1 = pi_low_minus_1, b_thread_distance = 0,
                     b_sum = 0, b_time = time\<rparr> of
              None \<Rightarrow> None
            | Some (resumed, v) \<Rightarrow>
                B_batches (int x) y z threads dists (b_low v) (b_pi_low_minus_1 v) (b_sum v)))"

text \<open>
  \<^verbatim>\<open>resume(x, y, sum, time)\<close> of \<^verbatim>\<open>B.cpp\<close>, the overload that resumes a result, and
  the function \<^verbatim>\<open>B\<close> for \<^verbatim>\<open>int64_t\<close>, which casts \<open>x\<close> to \<^verbatim>\<open>uint64_t\<close>.
\<close>

definition B_resume_result :: "json \<Rightarrow> int \<Rightarrow> int \<Rightarrow> int option option" where
  "B_resume_result j x y =
     (if is_resume j ''B'' [(''x'', x), (''y'', y)] then
        (case (get_real j ''B'' ''percent'', get_real j ''B'' ''seconds'') of
           (Some percent, Some seconds) \<Rightarrow>
             (if get_int j ''B'' ''low'' = None \<and> get_real j ''B'' ''low'' = None
              then (case get_int j ''B'' ''sum'' of None \<Rightarrow> None | Some s \<Rightarrow> Some (Some s))
              else Some None)
         | _ \<Rightarrow> None)
      else Some None)"

definition B :: "json \<Rightarrow> real \<Rightarrow> int \<Rightarrow> int \<Rightarrow> int \<Rightarrow> int list \<Rightarrow> int option" where
  "B json now x y threads dists =
     (case B_resume_result json x y of
        None \<Rightarrow> None
      | Some (Some sm) \<Rightarrow> Some sm
      | Some None \<Rightarrow>
          (let z = cpp_div x (max y 1)
           in B_OpenMP json now (u64_of_int x) y z threads dists now))"

subsection \<open>\<^verbatim>\<open>P2.cpp\<close> with the backup file\<close>

text \<open>
  The \<^verbatim>\<open>P2.cpp\<close> that writes a backup file has its own \<^verbatim>\<open>P2_thread\<close> and
  \<^verbatim>\<open>P2_OpenMP\<close>; they carry the suffix \<open>bk\<close> here. A thread returns \<^verbatim>\<open>p2\<close>,
  \<^verbatim>\<open>pix\<close> and \<^verbatim>\<open>pix_count\<close>.
\<close>

function P2_thread_loop_bk ::
  "int \<Rightarrow> int \<Rightarrow> int \<Rightarrow> int \<Rightarrow> int \<Rightarrow> int \<Rightarrow> int \<Rightarrow> int \<Rightarrow> (int \<times> int \<times> int \<times> int) option" where
  "P2_thread_loop_bk x z start prime next p2 pix pix_count =
     (if prime > start then
        (if prime \<le> 0 then None
         else if cpp_div x prime < z then
           (let (count, next') = count_primes next (cpp_div x prime);
                pix' = pix + count;
                p2' = p2 + pix';
                prime' = int (prev_prime (nat prime))
            in P2_thread_loop_bk x z start prime' next' p2' pix' (pix_count + 1))
         else Some (p2, pix, pix_count, next))
      else Some (p2, pix, pix_count, next))"
  by pat_completeness auto
termination
proof (relation "measure (\<lambda>(x, z, start, prime, next, p2, pix, pix_count). nat prime)")
  show "wf (measure (\<lambda>(x, z, start, prime, next, p2, pix, pix_count). nat prime))" by simp
next
  fix x z start prime nx p2 pix pix_count :: int and nx' pix' prime' p2' :: int
  assume "\<not> prime \<le> 0" "prime' = int (prev_prime (nat prime))"
  moreover have "prev_prime (nat prime) < nat prime \<or> nat prime = 0"
    by (rule prev_prime_spec(1))
  ultimately show "((x, z, start, prime', nx', p2', pix', pix_count + 1),
      (x, z, start, prime, nx, p2, pix, pix_count)) \<in>
      measure (\<lambda>(x, z, start, prime, next, p2, pix, pix_count). nat prime)"
    by auto
qed

declare P2_thread_loop_bk.simps [simp del]

definition P2_thread_bk ::
  "int \<Rightarrow> int \<Rightarrow> int \<Rightarrow> int \<Rightarrow> int \<Rightarrow> int \<Rightarrow> (int \<times> int \<times> int) option" where
  "P2_thread_bk x y z low thread_num thread_distance =
     (let low = low + thread_distance * thread_num;
          z = min (low + thread_distance) z
      in if x < 0 \<or> low \<le> 0 \<or> z = 0 then None
         else
           (let start = max (cpp_div x z) y;
                stop = min (cpp_div x low) (isqrt x);
                prime0 = int (prev_prime (nat (stop + 1)));
                next0 = int (next_prime (nat (low - 1)))
            in case P2_thread_loop_bk x z start prime0 next0 0 0 0 of
                 None \<Rightarrow> None
               | Some (p2, pix, pix_count, next') \<Rightarrow>
                   Some (p2, pix + fst (count_primes next' (z - 1)), pix_count)))"

fun add_missing :: "(int \<times> int \<times> int) list \<Rightarrow> int \<Rightarrow> int \<Rightarrow> int \<times> int" where
  "add_missing [] p2 pix_total = (p2, pix_total)"
| "add_missing ((thread_p2, pix, pix_count) # res) p2 pix_total =
     add_missing res (p2 + pix_total * pix_count) (pix_total + pix)"

text \<open>
  The \<^verbatim>\<open>while (low < z)\<close> loop. The list \<open>clock\<close> holds, for each batch, the seconds
  that \<^verbatim>\<open>balanceLoad\<close> measures from the reading of \<^verbatim>\<open>get_wtime()\<close> before the
  threads. When the list has none left the result is \<open>None\<close>. The backup file that each
  batch writes is not read again.
\<close>

fun P2_batches_bk ::
  "int \<Rightarrow> int \<Rightarrow> int \<Rightarrow> int \<Rightarrow> real list \<Rightarrow> int \<Rightarrow> int \<Rightarrow> int \<Rightarrow> int \<Rightarrow> int option" where
  "P2_batches_bk x y z threads [] thread_distance low pix_total p2 =
     (if low < z then None else Some p2)"
| "P2_batches_bk x y z threads (seconds # clock) thread_distance low pix_total p2 =
     (if low < z then
        (if thread_distance = 0 then None
         else
           (let max_threads = ceil_div (z - low) thread_distance;
                threads' = in_between 1 threads max_threads
            in case those (map (\<lambda>i. P2_thread_bk x y z low (int i) thread_distance)
                             [0..<nat threads']) of
                 None \<Rightarrow> None
               | Some res \<Rightarrow>
                   (let p2' = p2 + sum_list (map fst res);
                        low' = low + thread_distance * threads'
                    in case balanceLoad thread_distance low' z threads' seconds of
                         None \<Rightarrow> None
                       | Some thread_distance' \<Rightarrow>
                           (let (p2'', pix_total') = add_missing res p2' pix_total
                            in P2_batches_bk x y z threads' clock thread_distance' low'
                                 pix_total' p2''))))
      else Some p2)"

definition P2_OpenMP_bk ::
  "json \<Rightarrow> real \<Rightarrow> int \<Rightarrow> int \<Rightarrow> int \<Rightarrow> real list \<Rightarrow> real \<Rightarrow> int option" where
  "P2_OpenMP_bk json now x y threads clock time =
     (if x < 4 then Some 0
      else
        (let a = pi_legendre y;
             b = pi_legendre (isqrt x)
         in if a \<ge> b then Some 0
            else
              (let p2 = cpp_div ((a - 2) * (a + 1)) 2 - cpp_div ((b - 2) * (b + 1)) 2;
                   z = cpp_div x (max y 1)
               in case P2_resume json now x y z
                         \<lparr>p2_low = 2, p2_thread_distance = min_distance, p2_pix_total = 0,
                           p2_p2 = p2, p2_time = time\<rparr> of
                    None \<Rightarrow> None
                  | Some v \<Rightarrow>
                      P2_batches_bk x y z threads clock (p2_thread_distance v) (p2_low v)
                        (p2_pix_total v) (p2_p2 v))))"

lemma batches_nothing_to_do:
  "\<not> low < z \<Longrightarrow> B_batches x y z threads dists low pi_low_minus_1 sm = Some sm"
  by (cases dists) simp_all

text \<open>
  C10. \<^verbatim>\<open>P2_OpenMP\<close>, to which \<^verbatim>\<open>P2(x, y, threads)\<close> passes its arguments, returns 0
  when \<open>x < 4\<close> and when \<open>pi(y) \<ge> pi(isqrt(x))\<close>, in both versions of \<^verbatim>\<open>P2.cpp\<close> and
  whatever the load balancer or the clock would answer: also with the empty list, with which
  no batch of threads can start, so nothing is sieved. \<^verbatim>\<open>B_OpenMP\<close> returns 0 when its
  \<open>x\<close> is below 4. And \<^verbatim>\<open>B(x, y, threads)\<close> returns 0 for every \<open>x < 4\<close>, when the
  backup file holds nothing to resume for \<open>x\<close> and \<open>y\<close>: from the guard of \<^verbatim>\<open>B_OpenMP\<close>
  for \<open>0 \<le> x\<close>, and for \<open>x < 0\<close>, where the cast to \<^verbatim>\<open>uint64_t\<close> passes the guard,
  because \<open>z \<le> 0\<close> and the loop does not start.
\<close>

theorem P2_B_trivial_cases:
  "(x < 4 \<or> pi_simple y \<ge> pi_simple (isqrt x) \<longrightarrow> P2_OpenMP x y threads dists = Some 0) \<and>
   (x < 4 \<or> pi_legendre y \<ge> pi_legendre (isqrt x) \<longrightarrow>
      P2_OpenMP_bk json now x y threads clock time = Some 0) \<and>
   (u < 4 \<longrightarrow> B_OpenMP json now u y z threads dists time = Some 0) \<and>
   (x < 4 \<and> \<not> is_resume json ''B'' [(''x'', x), (''y'', y)] \<and>
    \<not> is_resume json ''B'' [(''x'', int (u64_of_int x)), (''y'', y)] \<longrightarrow>
      B json now x y threads dists = Some 0)"
proof (intro conjI impI)
  assume "x < 4 \<or> pi_simple y \<ge> pi_simple (isqrt x)"
  then show "P2_OpenMP x y threads dists = Some 0"
    by (auto simp: P2_OpenMP_def Let_def)
next
  assume "x < 4 \<or> pi_legendre y \<ge> pi_legendre (isqrt x)"
  then show "P2_OpenMP_bk json now x y threads clock time = Some 0"
    by (auto simp: P2_OpenMP_bk_def Let_def)
next
  assume "u < 4"
  then show "B_OpenMP json now u y z threads dists time = Some 0"
    by (simp add: B_OpenMP_def)
next
  assume a: "x < 4 \<and> \<not> is_resume json ''B'' [(''x'', x), (''y'', y)] \<and>
    \<not> is_resume json ''B'' [(''x'', int (u64_of_int x)), (''y'', y)]"
  then have r: "B_resume_result json x y = Some None" by (simp add: B_resume_result_def)
  let ?z = "cpp_div x (max y 1)"
  have "B_OpenMP json now (u64_of_int x) y ?z threads dists now = Some 0"
  proof (cases "u64_of_int x < 4")
    case True
    then show ?thesis by (simp add: B_OpenMP_def)
  next
    case False
    have neg: "x < 0"
    proof (rule ccontr)
      assume "\<not> x < 0"
      moreover have x4: "x < 4" using a by simp
      ultimately have "u64_of_int x = nat x" by (simp add: u64_of_int_def)
      moreover have "nat x < 4" using x4 by linarith
      ultimately show False using False by simp
    qed
    have "0 < max y 1" by simp
    then have "sgn (max y 1) = 1" "sgn x = - 1" using neg by simp_all
    moreover have "0 \<le> \<bar>x\<bar> div \<bar>max y 1\<bar>" by (simp add: pos_imp_zdiv_nonneg_iff)
    ultimately have "?z \<le> 0" by (simp add: cpp_div_def)
    moreover have "0 \<le> isqrt (int (u64_of_int x))" by (simp add: isqrt_def)
    ultimately have "\<not> isqrt (int (u64_of_int x)) < ?z" by simp
    from batches_nothing_to_do [OF this] a False show ?thesis
      by (simp add: B_OpenMP_def B_resume_def Let_def)
  qed
  with r show "B json now x y threads dists = Some 0" by (simp add: B_def Let_def)
qed

theorem P2_B_trivial_cases_witness:
  "pi_simple 3 \<ge> pi_simple (isqrt 10) \<and> P2_OpenMP 10 3 4 [] = Some 0 \<and>
   pi_legendre 3 \<ge> pi_legendre (isqrt 10) \<and> P2_OpenMP_bk Map.empty 0 10 3 4 [] 0 = Some 0 \<and>
   B_OpenMP Map.empty 0 3 1 3 4 [] 0 = Some 0 \<and>
   is_resume Map.empty ''B'' [(''x'', - 1), (''y'', 1)] = False \<and>
   is_resume Map.empty ''B'' [(''x'', int (u64_of_int (- 1))), (''y'', 1)] = False \<and>
   B Map.empty 0 (- 1) 1 4 [] = Some 0"
proof -
  have a: "pi_simple 3 \<ge> pi_simple (isqrt 10)" by code_simp
  have b: "pi_legendre 3 \<ge> pi_legendre (isqrt 10)" by code_simp
  have c: "\<not> is_resume Map.empty ''B'' [(''x'', - 1), (''y'', 1)]"
    "\<not> is_resume Map.empty ''B'' [(''x'', int (u64_of_int (- 1))), (''y'', 1)]"
    by (simp_all add: is_resume_def)
  show ?thesis
    using a b c
      P2_B_trivial_cases [where x = 10 and y = 3 and threads = 4 and dists = "[]"
        and json = Map.empty and now = 0 and clock = "[]" and time = 0 and u = 3 and z = 3]
      P2_B_trivial_cases [where x = "- 1" and y = 1 and threads = 4 and dists = "[]"
        and json = Map.empty and now = 0 and clock = "[]" and time = 0 and u = 3 and z = 3]
    by simp
qed

subsection \<open>Counting primes\<close>

definition primes_in :: "nat \<Rightarrow> nat \<Rightarrow> nat set" where
  "primes_in a b = {p \<in> {a<..b}. is_prime p}"

lemma finite_primes_in [simp]: "finite (primes_in a b)"
  by (simp add: primes_in_def)

lemma primes_in_iff: "p \<in> primes_in a b \<longleftrightarrow> is_prime p \<and> a < p \<and> p \<le> b"
  by (auto simp: primes_in_def)

lemma PrimePi_Suc: "PrimePi (Suc n) = PrimePi n + (if is_prime (Suc n) then 1 else 0)"
  by (simp add: PrimePi_def)

lemma primes_in_Suc:
  "a \<le> n \<Longrightarrow> primes_in a (Suc n) =
     (if is_prime (Suc n) then insert (Suc n) (primes_in a n) else primes_in a n)"
  by (auto simp: primes_in_iff le_Suc_eq)

lemma PrimePi_diff: "a \<le> b \<Longrightarrow> PrimePi b = PrimePi a + card (primes_in a b)"
proof (induction b rule: dec_induct)
  case base
  have "primes_in a a = {}" by (auto simp: primes_in_iff)
  then show ?case by simp
next
  case (step n)
  have "Suc n \<notin> primes_in a n" by (simp add: primes_in_iff)
  then show ?case
    using step by (simp add: PrimePi_Suc primes_in_Suc)
qed

lemma PrimePi_mono: "a \<le> b \<Longrightarrow> PrimePi a \<le> PrimePi b"
  using PrimePi_diff [of a b] by simp

lemma next_prime_unique:
  assumes "is_prime q" "m < q" "\<And>r. m < r \<Longrightarrow> r < q \<Longrightarrow> \<not> is_prime r"
  shows "next_prime m = q"
proof (rule ccontr)
  assume ne: "next_prime m \<noteq> q"
  show False
  proof (cases "next_prime m < q")
    case True
    from assms(3) [OF next_prime_greater True] next_prime_is_prime show False by blast
  next
    case False
    with ne have "q < next_prime m" by simp
    from next_prime_least [OF assms(2) this] assms(1) show False by blast
  qed
qed

lemma primes_in_next_prime: "primes_in n (next_prime n) = {next_prime n}"
  using next_prime_is_prime [of n] next_prime_greater [of n] next_prime_least [of n]
  by (auto simp: primes_in_iff) (metis le_neq_implies_less)

lemma PrimePi_next_prime: "PrimePi (next_prime n) = PrimePi n + 1"
  using PrimePi_diff [of n "next_prime n"] next_prime_greater [of n]
  by (simp add: primes_in_next_prime)

lemma no_prime_between:
  assumes "n \<le> s" "s < next_prime n"
  shows "PrimePi s = PrimePi n" and "next_prime s = next_prime n"
proof -
  have "primes_in n s = {}"
    using next_prime_least [of n] assms(2) by (auto simp: primes_in_iff)
  then show "PrimePi s = PrimePi n" using PrimePi_diff [OF assms(1)] by simp
  show "next_prime s = next_prime n"
  proof (rule next_prime_unique)
    show "is_prime (next_prime n)" by (rule next_prime_is_prime)
    show "s < next_prime n" by (rule assms(2))
  next
    fix r assume "s < r" "r < next_prime n"
    then show "\<not> is_prime r" using next_prime_least [of n r] assms(1) by simp
  qed
qed

lemma count_primes_correct:
  "int n \<le> stop \<Longrightarrow> count_primes (int (next_prime n)) stop =
     (int (PrimePi (nat stop)) - int (PrimePi n), int (next_prime (nat stop)))"
proof (induction "nat stop - n" arbitrary: n rule: less_induct)
  case less
  let ?q = "next_prime n"
  show ?case
  proof (cases "int ?q \<le> stop")
    case True
    have lt: "nat stop - ?q < nat stop - n"
      using next_prime_greater [of n] True by linarith
    have rec: "count_primes (int (next_prime ?q)) stop =
        (int (PrimePi (nat stop)) - int (PrimePi ?q), int (next_prime (nat stop)))"
      by (rule less.hyps [OF lt True])
    show ?thesis
      using True rec
      by (simp add: count_primes.simps [of "int ?q" stop] PrimePi_next_prime)
  next
    case False
    then have s: "n \<le> nat stop" "nat stop < ?q" using less.prems by linarith+
    from no_prime_between [OF s] False show ?thesis
      by (simp add: count_primes.simps [of "int ?q" stop])
  qed
qed

lemma primes_in_prev_prime:
  assumes "is_prime P" "a < P"
  shows "primes_in a P = insert P (primes_in a (prev_prime P))"
    and "P \<notin> primes_in a (prev_prime P)"
proof -
  have lt: "prev_prime P < P" using prev_prime_spec(1) [of P] assms(2) by auto
  show "P \<notin> primes_in a (prev_prime P)" using lt by (simp add: primes_in_iff)
  show "primes_in a P = insert P (primes_in a (prev_prime P))"
  proof (intro set_eqI iffI)
    fix q assume "q \<in> primes_in a P"
    then have q: "is_prime q" "a < q" "q \<le> P" by (simp_all add: primes_in_iff)
    show "q \<in> insert P (primes_in a (prev_prime P))"
    proof (cases "q = P")
      case True
      then show ?thesis by simp
    next
      case False
      with q(3) have "q < P" by simp
      with prev_prime_spec(3) [of P q] q(1) have "q \<le> prev_prime P" by force
      with q show ?thesis by (simp add: primes_in_iff)
    qed
  next
    fix q assume "q \<in> insert P (primes_in a (prev_prime P))"
    then show "q \<in> primes_in a P" using assms lt by (auto simp: primes_in_iff)
  qed
qed

lemma P2_thread_loop_correct:
  assumes "0 \<le> x" "0 \<le> start" "P = 0 \<or> is_prime P"
    and "start < int P \<Longrightarrow> n \<le> nat x div P"
  shows "\<exists>n'. P2_thread_loop x start (int P) (int (next_prime n)) sm (int (PrimePi n) - c) iters =
      Some (sm + (\<Sum>p \<in> primes_in (nat start) P. int (PrimePi (nat x div p)) - c),
            int (PrimePi n') - c, iters + int (card (primes_in (nat start) P)),
            int (next_prime n')) \<and>
      n \<le> n' \<and> (n' = n \<or> (\<exists>p \<in> primes_in (nat start) P. n' = nat x div p))"
  using assms(3,4)
proof (induction P arbitrary: n sm iters rule: less_induct)
  case (less P)
  show ?case
  proof (cases "start < int P")
    case False
    then have "primes_in (nat start) P = {}" by (auto simp: primes_in_iff)
    with False have "P2_thread_loop x start (int P) (int (next_prime n)) sm
          (int (PrimePi n) - c) iters =
        Some (sm + (\<Sum>p \<in> primes_in (nat start) P. int (PrimePi (nat x div p)) - c),
              int (PrimePi n) - c, iters + int (card (primes_in (nat start) P)),
              int (next_prime n))"
      by (simp add: P2_thread_loop.simps [of x start "int P"])
    then show ?thesis by blast
  next
    case True
    then have pos: "0 < P" and st: "nat start < P" using assms(2) by linarith+
    with less.prems(1) have prime: "is_prime P" by simp
    let ?m = "nat x div P" and ?P' = "prev_prime P"
    have xp: "cpp_div x (int P) = int ?m"
      using assms(1) pos by (simp add: cpp_div_nonneg zdiv_int)
    have nm: "int n \<le> int ?m" using less.prems(2) [OF True] by simp
    have cnt: "count_primes (int (next_prime n)) (int ?m) =
        (int (PrimePi ?m) - int (PrimePi n), int (next_prime ?m))"
      using count_primes_correct [OF nm] by simp
    have lt: "?P' < P" using prev_prime_spec(1) [of P] pos by auto
    have p': "?P' = 0 \<or> is_prime ?P'" by (rule prev_prime_spec(2))
    have mono: "start < int ?P' \<Longrightarrow> ?m \<le> nat x div ?P'"
    proof -
      assume "start < int ?P'"
      then have "0 < ?P'" using assms(2) by linarith
      then show "?m \<le> nat x div ?P'" using lt by (intro div_le_mono2) simp_all
    qed
    from less.IH [OF lt p' mono, of "sm + (int (PrimePi ?m) - c)" "iters + 1"]
    obtain n' where rec: "P2_thread_loop x start (int ?P') (int (next_prime ?m))
          (sm + (int (PrimePi ?m) - c)) (int (PrimePi ?m) - c) (iters + 1) =
        Some (sm + (int (PrimePi ?m) - c) +
                (\<Sum>p \<in> primes_in (nat start) ?P'. int (PrimePi (nat x div p)) - c),
              int (PrimePi n') - c, iters + 1 + int (card (primes_in (nat start) ?P')),
              int (next_prime n'))"
      and n': "?m \<le> n'" "n' = ?m \<or> (\<exists>p \<in> primes_in (nat start) ?P'. n' = nat x div p)"
      by blast
    note split = primes_in_prev_prime [OF prime st]
    have unf: "P2_thread_loop x start (int P) (int (next_prime n)) sm (int (PrimePi n) - c) iters =
        P2_thread_loop x start (int ?P') (int (next_prime ?m))
          (sm + (int (PrimePi ?m) - c)) (int (PrimePi ?m) - c) (iters + 1)"
      using True pos
      by (simp add: P2_thread_loop.simps [of x start "int P"] xp cnt Let_def)
    have sm_eq: "(\<Sum>p \<in> primes_in (nat start) P. int (PrimePi (nat x div p)) - c) =
        (int (PrimePi ?m) - c) +
        (\<Sum>p \<in> primes_in (nat start) ?P'. int (PrimePi (nat x div p)) - c)"
      unfolding split(1) using split(2) by simp
    have card_eq: "card (primes_in (nat start) P) = 1 + card (primes_in (nat start) ?P')"
      unfolding split(1) using split(2) by simp
    have "P2_thread_loop x start (int P) (int (next_prime n)) sm (int (PrimePi n) - c) iters =
        Some (sm + (\<Sum>p \<in> primes_in (nat start) P. int (PrimePi (nat x div p)) - c),
              int (PrimePi n') - c, iters + int (card (primes_in (nat start) P)),
              int (next_prime n'))"
      unfolding unf rec sm_eq card_eq by simp
    moreover have "n \<le> n'" using nm n'(1) by simp
    moreover have "n' = n \<or> (\<exists>p \<in> primes_in (nat start) P. n' = nat x div p)"
      using n'(2) unfolding split(1) by blast
    ultimately show ?thesis by blast
  qed
qed

lemma primes_in_prev_prime_Suc: "primes_in a (prev_prime (Suc b)) = primes_in a b"
proof (intro set_eqI iffI)
  fix q assume "q \<in> primes_in a (prev_prime (Suc b))"
  then show "q \<in> primes_in a b"
    using prev_prime_spec(1) [of "Suc b"] by (auto simp: primes_in_iff)
next
  fix q assume "q \<in> primes_in a b"
  then have q: "is_prime q" "a < q" "q \<le> b" by (simp_all add: primes_in_iff)
  with prev_prime_spec(3) [of "Suc b" q] have "q \<le> prev_prime (Suc b)" by force
  with q show "q \<in> primes_in a (prev_prime (Suc b))" by (simp add: primes_in_iff)
qed

lemma thread_body_correct:
  assumes "0 \<le> x" "1 \<le> L" "L < Z" "0 \<le> start" "0 \<le> stop" "stop \<le> x div L"
    and below: "\<And>p. p \<in> primes_in (nat start) (nat stop) \<Longrightarrow> x div int p < Z"
  shows "(case P2_thread_loop x start (int (prev_prime (nat (stop + 1))))
            (int (next_prime (nat (L - 1)))) 0 0 0 of
          None \<Rightarrow> None
        | Some (sm, pix, iters, next') \<Rightarrow>
            Some \<lparr>tr_sum = sm, tr_pix = pix + fst (count_primes next' (Z - 1)),
                  tr_iters = iters\<rparr>) =
      Some \<lparr>tr_sum = (\<Sum>p \<in> primes_in (nat start) (nat stop).
                        int (PrimePi (nat x div p)) - int (PrimePi (nat (L - 1)))),
            tr_pix = int (PrimePi (nat (Z - 1))) - int (PrimePi (nat (L - 1))),
            tr_iters = int (card (primes_in (nat start) (nat stop)))\<rparr>"
proof -
  let ?P = "prev_prime (nat (stop + 1))" and ?n = "nat (L - 1)"
  have suc: "nat (stop + 1) = Suc (nat stop)" using assms(5) by simp
  have set_eq: "primes_in (nat start) ?P = primes_in (nat start) (nat stop)"
    unfolding suc by (rule primes_in_prev_prime_Suc)
  have P: "?P = 0 \<or> is_prime ?P" by (rule prev_prime_spec(2))
  have Ple: "int ?P \<le> stop"
    using prev_prime_spec(1) [of "nat (stop + 1)"] assms(5) by auto
  have first: "start < int ?P \<Longrightarrow> ?n \<le> nat x div ?P"
  proof -
    assume "start < int ?P"
    then have pos: "0 < int ?P" using assms(4) by linarith
    have "int ?P \<le> x div L" using Ple assms(6) by simp
    then have "int ?P * L \<le> x" using int_le_div_iff [of L "int ?P" x] assms(2) by simp
    then have "L * int ?P \<le> x" by (simp add: mult.commute)
    then have "L \<le> x div int ?P" using int_le_div_iff [OF pos, of L x] by simp
    also have "x div int ?P = int (nat x div ?P)" using assms(1) by (simp add: zdiv_int)
    finally show "?n \<le> nat x div ?P" by linarith
  qed
  from P2_thread_loop_correct [OF assms(1,4) P first, of 0 "int (PrimePi ?n)" 0]
  obtain n' where run: "P2_thread_loop x start (int ?P) (int (next_prime ?n)) 0 0 0 =
      Some ((\<Sum>p \<in> primes_in (nat start) (nat stop). int (PrimePi (nat x div p)) - int (PrimePi ?n)),
            int (PrimePi n') - int (PrimePi ?n), int (card (primes_in (nat start) (nat stop))),
            int (next_prime n'))"
    and n': "?n \<le> n'" "n' = ?n \<or> (\<exists>p \<in> primes_in (nat start) (nat stop). n' = nat x div p)"
    unfolding set_eq by auto
  have "int n' \<le> Z - 1"
  proof (cases "n' = ?n")
    case True
    then show ?thesis using assms(2,3) by simp
  next
    case False
    with n'(2) obtain p where p: "p \<in> primes_in (nat start) (nat stop)" "n' = nat x div p"
      by blast
    have "int n' = x div int p" using p(2) assms(1) by (simp add: zdiv_int)
    with below [OF p(1)] show ?thesis by simp
  qed
  from count_primes_correct [OF this]
  have "fst (count_primes (int (next_prime n')) (Z - 1)) =
      int (PrimePi (nat (Z - 1))) - int (PrimePi n')"
    by simp
  then show ?thesis unfolding run by simp
qed

text \<open>
  \<open>kernel_primes x y l h\<close>: the primes \<open>p\<close> with \<open>y < p \<le> isqrt x\<close> whose quotient
  \<open>x div p\<close> lies in \<open>[l, h)\<close>.
\<close>

definition kernel_primes :: "int \<Rightarrow> int \<Rightarrow> int \<Rightarrow> int \<Rightarrow> nat set" where
  "kernel_primes x y l h =
     {p \<in> primes_in (nat y) (nat (isqrt x)). l \<le> x div int p \<and> x div int p < h}"

lemma finite_kernel_primes [simp]: "finite (kernel_primes x y l h)"
  by (simp add: kernel_primes_def)

lemma div_swap_le: "0 < (a::int) \<Longrightarrow> 0 < b \<Longrightarrow> (a \<le> x div b) = (b \<le> x div a)"
  using int_le_div_iff [of b a x] int_le_div_iff [of a b x] by (simp add: mult.commute)

lemma div_swap_less: "0 < (a::int) \<Longrightarrow> 0 < b \<Longrightarrow> (x div b < a) = (x div a < b)"
  using div_swap_le [of a b x] by linarith

lemma is_prime_pos: "is_prime p \<Longrightarrow> 0 < int p"
  by (simp add: is_prime_def)

lemma thread_primes_P2:
  assumes "1 \<le> L" "L < Z"
  shows "primes_in (nat (max (x div Z) y)) (nat (min (x div L) (isqrt x))) =
      kernel_primes x y L Z"
proof (intro set_eqI)
  fix p
  show "p \<in> primes_in (nat (max (x div Z) y)) (nat (min (x div L) (isqrt x))) \<longleftrightarrow>
      p \<in> kernel_primes x y L Z"
  proof (cases "is_prime p")
    case False
    then show ?thesis by (simp add: kernel_primes_def primes_in_iff)
  next
    case True
    note pos = is_prime_pos [OF True]
    have Z: "0 < Z" and L: "0 < L" using assms by simp_all
    have a: "(nat (max (x div Z) y) < p) = (x div Z < int p \<and> y < int p)"
      using pos by linarith
    have b: "(p \<le> nat (min (x div L) (isqrt x))) = (int p \<le> x div L \<and> int p \<le> isqrt x)"
      using pos by linarith
    have c: "(nat y < p) = (y < int p)" "(p \<le> nat (isqrt x)) = (int p \<le> isqrt x)"
      using pos by linarith+
    show ?thesis
      unfolding kernel_primes_def primes_in_iff mem_Collect_eq a b c
      using div_swap_less [OF pos Z, of x] div_swap_le [OF pos L, of x] True by blast
  qed
qed

lemma thread_primes_B:
  assumes "1 \<le> L" "L < Z"
  shows "primes_in (nat (max (min (x div Z) (isqrt x)) y)) (nat (min (x div L) (isqrt x))) =
      kernel_primes x y L Z"
proof -
  have "primes_in (nat (max (min (x div Z) (isqrt x)) y)) (nat (min (x div L) (isqrt x))) =
      primes_in (nat (max (x div Z) y)) (nat (min (x div L) (isqrt x)))"
  proof (intro set_eqI)
    fix p
    show "p \<in> primes_in (nat (max (min (x div Z) (isqrt x)) y)) (nat (min (x div L) (isqrt x)))
        \<longleftrightarrow> p \<in> primes_in (nat (max (x div Z) y)) (nat (min (x div L) (isqrt x)))"
    proof (cases "is_prime p")
      case False
      then show ?thesis by (simp add: primes_in_iff)
    next
      case True
      note pos = is_prime_pos [OF True]
      show ?thesis unfolding primes_in_iff using pos by (simp add: True) linarith
    qed
  qed
  then show ?thesis using thread_primes_P2 [OF assms] by simp
qed

lemma thread_result:
  assumes "0 \<le> x" "1 \<le> low + d * i" "low + d * i < z" "1 \<le> d"
  shows "P2_thread x y z low i d =
      Some \<lparr>tr_sum = (\<Sum>p \<in> kernel_primes x y (low + d * i) (min (low + d * i + d) z).
                        int (PrimePi (nat x div p)) - int (PrimePi (nat (low + d * i - 1)))),
            tr_pix = int (PrimePi (nat (min (low + d * i + d) z - 1))) -
                     int (PrimePi (nat (low + d * i - 1))),
            tr_iters = int (card (kernel_primes x y (low + d * i) (min (low + d * i + d) z)))\<rparr>"
    and "B_thread x y z low i d =
      Some \<lparr>tr_sum = (\<Sum>p \<in> kernel_primes x y (low + d * i) (min (low + d * i + d) z).
                        int (PrimePi (nat x div p)) - int (PrimePi (nat (low + d * i - 1)))),
            tr_pix = int (PrimePi (nat (min (low + d * i + d) z - 1))) -
                     int (PrimePi (nat (low + d * i - 1))),
            tr_iters = int (card (kernel_primes x y (low + d * i) (min (low + d * i + d) z)))\<rparr>"
proof -
  let ?L = "low + d * i" and ?Z = "min (low + d * i + d) z"
  have LZ: "?L < ?Z" and Zpos: "0 < ?Z" and Lpos: "0 < ?L" using assms by simp_all
  have dv: "cpp_div x ?Z = x div ?Z" "cpp_div x ?L = x div ?L"
    using assms(1) Zpos Lpos by (simp_all add: cpp_div_nonneg)
  let ?stop = "min (x div ?L) (isqrt x)"
  have stop: "0 \<le> ?stop" "?stop \<le> x div ?L"
    using assms(1) Lpos by (simp_all add: isqrt_def pos_imp_zdiv_nonneg_iff)
  have xz: "0 \<le> x div ?Z" using assms(1) Zpos by (simp add: pos_imp_zdiv_nonneg_iff)
  have guard: "\<not> (x < 0 \<or> ?L \<le> 0 \<or> ?Z = 0)" using assms(1) Zpos Lpos by linarith
  {
    fix start
    assume eq: "primes_in (nat start) (nat ?stop) = kernel_primes x y ?L ?Z" and st: "0 \<le> start"
    have below: "\<And>p. p \<in> primes_in (nat start) (nat ?stop) \<Longrightarrow> x div int p < ?Z"
      unfolding eq by (simp add: kernel_primes_def)
    note thread_body_correct [OF assms(1,2) LZ st stop below, unfolded eq]
  }
  note body = this
  have s1: "0 \<le> max (x div ?Z) y" using xz by simp
  have s2: "0 \<le> max (min (x div ?Z) (isqrt x)) y" using xz by (simp add: isqrt_def)
  show "P2_thread x y z low i d =
      Some \<lparr>tr_sum = (\<Sum>p \<in> kernel_primes x y ?L ?Z.
                        int (PrimePi (nat x div p)) - int (PrimePi (nat (?L - 1)))),
            tr_pix = int (PrimePi (nat (?Z - 1))) - int (PrimePi (nat (?L - 1))),
            tr_iters = int (card (kernel_primes x y ?L ?Z))\<rparr>"
    using body [OF thread_primes_P2 [OF assms(2) LZ] s1] assms(3) guard
    unfolding P2_thread_def Let_def dv by (simp add: mult.commute add.commute)
  show "B_thread x y z low i d =
      Some \<lparr>tr_sum = (\<Sum>p \<in> kernel_primes x y ?L ?Z.
                        int (PrimePi (nat x div p)) - int (PrimePi (nat (?L - 1)))),
            tr_pix = int (PrimePi (nat (?Z - 1))) - int (PrimePi (nat (?L - 1))),
            tr_iters = int (card (kernel_primes x y ?L ?Z))\<rparr>"
    using body [OF thread_primes_B [OF assms(2) LZ] s2] assms(3) guard
    unfolding B_thread_def Let_def dv by (simp add: mult.commute add.commute)
qed

lemma kernel_primes_split:
  assumes "l \<le> m" "m \<le> h"
  shows "kernel_primes x y l h = kernel_primes x y l m \<union> kernel_primes x y m h"
    and "kernel_primes x y l m \<inter> kernel_primes x y m h = {}"
  using assms by (auto simp: kernel_primes_def)

lemma kernel_primes_empty: "h \<le> l \<Longrightarrow> kernel_primes x y l h = {}"
  by (auto simp: kernel_primes_def)

lemma those_snoc:
  "those (map f (xs @ [a])) =
     (case those (map f xs) of
        None \<Rightarrow> None
      | Some rs \<Rightarrow> (case f a of None \<Rightarrow> None | Some r \<Rightarrow> Some (rs @ [r])))"
  by (induction xs) (auto split: option.splits)

lemma those_upt_Suc:
  "those (map f [0..<Suc T]) =
     (case those (map f [0..<T]) of
        None \<Rightarrow> None
      | Some rs \<Rightarrow> (case f T of None \<Rightarrow> None | Some r \<Rightarrow> Some (rs @ [r])))"
  using those_snoc [of f "[0..<T]" T] by simp

lemma add_results_snoc:
  "add_results (rs @ [r]) sm p =
     (fst (add_results rs sm p) + (tr_sum r + snd (add_results rs sm p) * tr_iters r),
      snd (add_results rs sm p) + tr_pix r)"
  by (induction rs arbitrary: sm p) (simp_all add: Let_def)

text \<open>
  One batch: the threads \<open>0, \<dots>, T - 1\<close> and the sequential loop over their results.
  \<open>th i\<close> is the result of the thread \<open>i\<close>.
\<close>

lemma batch_fold:
  assumes "0 \<le> x" "1 \<le> low" "low \<le> z" "1 \<le> d"
    and run: "\<And>i. low + d * int i < z \<Longrightarrow> th i =
      Some \<lparr>tr_sum = (\<Sum>p \<in> kernel_primes x y (low + d * int i) (min (low + d * int i + d) z).
                        int (PrimePi (nat x div p)) - int (PrimePi (nat (low + d * int i - 1)))),
            tr_pix = int (PrimePi (nat (min (low + d * int i + d) z - 1))) -
                     int (PrimePi (nat (low + d * int i - 1))),
            tr_iters = int (card (kernel_primes x y (low + d * int i)
                                    (min (low + d * int i + d) z)))\<rparr>"
    and idle: "\<And>i. \<not> low + d * int i < z \<Longrightarrow> th i = Some \<lparr>tr_sum = 0, tr_pix = 0, tr_iters = 0\<rparr>"
  shows "\<exists>res. those (map th [0..<T]) = Some res \<and>
      add_results res sm (int (PrimePi (nat (low - 1)))) =
        (sm + (\<Sum>p \<in> kernel_primes x y low (min (low + d * int T) z). int (PrimePi (nat x div p))),
         int (PrimePi (nat (min (low + d * int T) z - 1))))"
proof (induction T)
  case 0
  have "kernel_primes x y low (min low z) = {}" by (rule kernel_primes_empty) simp
  then show ?case using assms(3) by simp
next
  case (Suc T)
  let ?L = "low + d * int T"
  let ?K = "\<lambda>l h. kernel_primes x y l h"
  let ?f = "\<lambda>p. int (PrimePi (nat x div p))"
  from Suc obtain res where res: "those (map th [0..<T]) = Some res"
    and fold: "add_results res sm (int (PrimePi (nat (low - 1)))) =
        (sm + sum ?f (?K low (min ?L z)), int (PrimePi (nat (min ?L z - 1))))"
    by blast
  have next_L: "low + d * int (Suc T) = ?L + d" by (simp add: algebra_simps)
  have lowL: "low \<le> ?L" using assms(4) by simp
  show ?case
  proof (cases "?L < z")
    case True
    let ?Z = "min (?L + d) z"
    let ?c = "int (PrimePi (nat (?L - 1)))"
    note r = run [OF True]
    have mn: "min ?L z = ?L" using True by simp
    have LZ: "?L \<le> ?Z" using True assms(4) by simp
    note sp = kernel_primes_split [OF lowL LZ, of x y]
    have "sum ?f (?K low ?Z) = sum ?f (?K low ?L) + sum ?f (?K ?L ?Z)"
      unfolding sp(1) by (rule sum.union_disjoint) (simp_all add: sp(2))
    moreover have "(\<Sum>p \<in> ?K ?L ?Z. ?f p - ?c) + ?c * int (card (?K ?L ?Z)) = sum ?f (?K ?L ?Z)"
      by (simp add: sum_subtractf mult.commute)
    ultimately have total: "sm + sum ?f (?K low ?L) +
        ((\<Sum>p \<in> ?K ?L ?Z. ?f p - ?c) + ?c * int (card (?K ?L ?Z))) = sm + sum ?f (?K low ?Z)"
      by simp
    have "those (map th [0..<Suc T]) = Some (res @ [the (th T)])"
      unfolding those_upt_Suc res r by simp
    moreover have "add_results (res @ [the (th T)]) sm (int (PrimePi (nat (low - 1)))) =
        (sm + sum ?f (?K low ?Z), int (PrimePi (nat (?Z - 1))))"
      unfolding add_results_snoc fold mn r using total by simp
    ultimately show ?thesis unfolding next_L by blast
  next
    case False
    note r = idle [OF False]
    have mn: "min ?L z = z" "min (?L + d) z = z" using False assms(4) by simp_all
    have "those (map th [0..<Suc T]) = Some (res @ [the (th T)])"
      unfolding those_upt_Suc res r by simp
    moreover have "add_results (res @ [the (th T)]) sm (int (PrimePi (nat (low - 1)))) =
        (sm + sum ?f (?K low z), int (PrimePi (nat (z - 1))))"
      unfolding add_results_snoc fold mn r by simp
    ultimately show ?thesis unfolding next_L mn by blast
  qed
qed

text \<open>
  \<open>enough low z threads dists\<close>: the distances are enough for the loop to end. The
  load balancer answers a distance of at least 1 for every batch that starts.
\<close>

fun enough :: "int \<Rightarrow> int \<Rightarrow> int \<Rightarrow> int list \<Rightarrow> bool" where
  "enough low z threads [] = (\<not> low < z)"
| "enough low z threads (d # dists) =
     (low < z \<longrightarrow> 1 \<le> d \<and> enough (low + d * threads) z threads dists)"

lemma thread_idle:
  "\<not> low + d * i < z \<Longrightarrow> P2_thread x y z low i d = Some \<lparr>tr_sum = 0, tr_pix = 0, tr_iters = 0\<rparr>"
  "\<not> low + d * i < z \<Longrightarrow> B_thread x y z low i d = Some \<lparr>tr_sum = 0, tr_pix = 0, tr_iters = 0\<rparr>"
  by (simp_all add: P2_thread_def B_thread_def Let_def)

lemma batch_step:
  assumes "0 \<le> x" "1 \<le> threads" "1 \<le> low" "low < z" "1 \<le> d"
    and th: "th = (\<lambda>i. P2_thread x y z low (int i) d) \<or> th = (\<lambda>i. B_thread x y z low (int i) d)"
  shows "\<exists>res. those (map th [0..<nat threads]) = Some res \<and>
      add_results res sm (int (PrimePi (nat (low - 1)))) =
        (sm + (\<Sum>p \<in> kernel_primes x y low (min (low + d * threads) z).
                 int (PrimePi (nat x div p))),
         int (PrimePi (nat (min (low + d * threads) z - 1))))"
proof -
  have T: "int (nat threads) = threads" using assms(2) by simp
  have low_i: "\<And>i. 1 \<le> low + d * int i" using assms(3,5) by (simp add: add_increasing2)
  have le: "low \<le> z" using assms(4) by simp
  from th show ?thesis
  proof
    assume e: "th = (\<lambda>i. P2_thread x y z low (int i) d)"
    show ?thesis
      using batch_fold [OF assms(1,3) le assms(5), where th = th and y = y and T = "nat threads"
          and sm = sm]
        thread_result(1) [OF assms(1) low_i _ assms(5), where z = z and y = y]
        thread_idle(1) [where low = low and d = d and z = z and x = x and y = y]
      unfolding e T by blast
  next
    assume e: "th = (\<lambda>i. B_thread x y z low (int i) d)"
    show ?thesis
      using batch_fold [OF assms(1,3) le assms(5), where th = th and y = y and T = "nat threads"
          and sm = sm]
        thread_result(2) [OF assms(1) low_i _ assms(5), where z = z and y = y]
        thread_idle(2) [where low = low and d = d and z = z and x = x and y = y]
      unfolding e T by blast
  qed
qed

lemma kernel_primes_after_batch:
  assumes "low \<le> low'" "low < z"
  shows "(\<Sum>p \<in> kernel_primes x y low (min low' z). f p) + (\<Sum>p \<in> kernel_primes x y low' z. f p) =
      (\<Sum>p \<in> kernel_primes x y low z. f p)"
proof (cases "low' < z")
  case True
  then have le: "low' \<le> z" and mn: "min low' z = low'" by simp_all
  note sp = kernel_primes_split [OF assms(1) le, of x y]
  show ?thesis
    unfolding mn sp(1) by (rule sum.union_disjoint [symmetric]) (simp_all add: sp(2))
next
  case False
  then have "kernel_primes x y low' z = {}" "min low' z = z"
    by (simp_all add: kernel_primes_empty)
  then show ?thesis by simp
qed

lemma P2_batches_correct:
  assumes "0 \<le> x" "1 \<le> threads"
  shows "1 \<le> low \<Longrightarrow> enough low z threads dists \<Longrightarrow>
    (low < z \<Longrightarrow> pi_low_minus_1 = int (PrimePi (nat (low - 1)))) \<Longrightarrow>
    P2_batches x y z threads dists low pi_low_minus_1 sm =
      Some (sm + (\<Sum>p \<in> kernel_primes x y low z. int (PrimePi (nat x div p))))"
proof (induction dists arbitrary: low pi_low_minus_1 sm)
  case Nil
  then show ?case by (simp add: kernel_primes_empty)
next
  case (Cons d dists)
  show ?case
  proof (cases "low < z")
    case False
    then show ?thesis by (simp add: kernel_primes_empty)
  next
    case True
    with Cons.prems have d: "1 \<le> d" and en: "enough (low + d * threads) z threads dists"
      and pi: "pi_low_minus_1 = int (PrimePi (nat (low - 1)))"
      by simp_all
    let ?low' = "low + d * threads"
    from batch_step [OF assms Cons.prems(1) True d,
        where th = "\<lambda>i. P2_thread x y z low (int i) d" and y = y and sm = sm]
    obtain res where res: "those (map (\<lambda>i. P2_thread x y z low (int i) d) [0..<nat threads]) =
        Some res"
      and fold: "add_results res sm (int (PrimePi (nat (low - 1)))) =
        (sm + (\<Sum>p \<in> kernel_primes x y low (min ?low' z). int (PrimePi (nat x div p))),
         int (PrimePi (nat (min ?low' z - 1))))"
      by blast
    have low': "1 \<le> ?low'" "low \<le> ?low'"
      using Cons.prems(1) d assms(2) by (simp_all add: add_increasing2)
    have pi': "?low' < z \<Longrightarrow>
        int (PrimePi (nat (min ?low' z - 1))) = int (PrimePi (nat (?low' - 1)))"
      by simp
    note ih = Cons.IH [OF low'(1) en pi', where sm =
        "sm + (\<Sum>p \<in> kernel_primes x y low (min ?low' z). int (PrimePi (nat x div p)))"]
    show ?thesis
      using True res fold ih
        kernel_primes_after_batch [OF low'(2) True, where x = x and y = y
          and f = "\<lambda>p. int (PrimePi (nat x div p))"]
      by (simp add: pi)
  qed
qed

lemma B_batches_correct:
  assumes "0 \<le> x" "1 \<le> threads"
  shows "1 \<le> low \<Longrightarrow> enough low z threads dists \<Longrightarrow>
    (low < z \<Longrightarrow> pi_low_minus_1 = int (PrimePi (nat (low - 1)))) \<Longrightarrow>
    B_batches x y z threads dists low pi_low_minus_1 sm =
      Some (sm + (\<Sum>p \<in> kernel_primes x y low z. int (PrimePi (nat x div p))))"
proof (induction dists arbitrary: low pi_low_minus_1 sm)
  case Nil
  then show ?case by (simp add: kernel_primes_empty)
next
  case (Cons d dists)
  show ?case
  proof (cases "low < z")
    case False
    then show ?thesis by (simp add: kernel_primes_empty)
  next
    case True
    with Cons.prems have d: "1 \<le> d" and en: "enough (low + d * threads) z threads dists"
      and pi: "pi_low_minus_1 = int (PrimePi (nat (low - 1)))"
      by simp_all
    let ?low' = "low + d * threads"
    from batch_step [OF assms Cons.prems(1) True d,
        where th = "\<lambda>i. B_thread x y z low (int i) d" and y = y and sm = sm]
    obtain res where res: "those (map (\<lambda>i. B_thread x y z low (int i) d) [0..<nat threads]) =
        Some res"
      and fold: "add_results res sm (int (PrimePi (nat (low - 1)))) =
        (sm + (\<Sum>p \<in> kernel_primes x y low (min ?low' z). int (PrimePi (nat x div p))),
         int (PrimePi (nat (min ?low' z - 1))))"
      by blast
    have low': "1 \<le> ?low'" "low \<le> ?low'"
      using Cons.prems(1) d assms(2) by (simp_all add: add_increasing2)
    have pi': "?low' < z \<Longrightarrow>
        int (PrimePi (nat (min ?low' z - 1))) = int (PrimePi (nat (?low' - 1)))"
      by simp
    note ih = Cons.IH [OF low'(1) en pi', where sm =
        "sm + (\<Sum>p \<in> kernel_primes x y low (min ?low' z). int (PrimePi (nat x div p)))"]
    show ?thesis
      using True res fold ih
        kernel_primes_after_batch [OF low'(2) True, where x = x and y = y
          and f = "\<lambda>p. int (PrimePi (nat x div p))"]
      by (simp add: pi)
  qed
qed

subsection \<open>Legendre's formula: \<^verbatim>\<open>pi_simple\<close> counts the primes\<close>

lemma sorted_le_last: "sorted xs \<Longrightarrow> x \<in> set xs \<Longrightarrow> x \<le> last xs"
  by (induction xs) auto

lemma mem_primes_upto: "p \<in> set (filter is_prime [0..<Suc r]) \<longleftrightarrow> is_prime p \<and> p \<le> r"
  by (auto simp del: upt_Suc simp: less_Suc_eq_le)

lemma ball_primes_upto:
  "(\<forall>p \<in> set (filter is_prime [0..<Suc r]). Q p) \<longleftrightarrow> (\<forall>p. is_prime p \<and> p \<le> r \<longrightarrow> Q p)"
  unfolding Ball_def mem_primes_upto by blast

lemma first_primes_PrimePi: "first_primes (PrimePi r) = filter is_prime [0..<Suc r]"
proof (induction r)
  case 0
  show ?case by (simp add: PrimePi_def is_prime_def)
next
  case (Suc r)
  let ?ps = "filter is_prime [0..<Suc r]"
  have upt: "[0..<Suc (Suc r)] = [0..<Suc r] @ [Suc r]" by (rule upt_Suc_append) simp
  show ?case
  proof (cases "is_prime (Suc r)")
    case False
    have "filter is_prime [0..<Suc (Suc r)] = ?ps"
      unfolding upt filter_append using False by simp
    moreover have "PrimePi (Suc r) = PrimePi r" using False by (simp add: PrimePi_Suc)
    ultimately show ?thesis using Suc.IH by simp
  next
    case True
    let ?m = "if ?ps = [] then 0 else last ?ps"
    have np: "next_prime ?m = Suc r"
    proof (rule next_prime_unique [OF True])
      show "?m < Suc r"
      proof (cases "?ps = []")
        case False
        then have "last ?ps \<in> set ?ps" by (rule last_in_set)
        then have "last ?ps \<le> r" unfolding mem_primes_upto by simp
        then show ?thesis using False by (simp del: upt_Suc)
      qed (simp del: upt_Suc)
    next
      fix q assume q: "?m < q" "q < Suc r"
      show "\<not> is_prime q"
      proof
        assume "is_prime q"
        with q(2) have mem: "q \<in> set ?ps" unfolding mem_primes_upto by simp
        then have ne: "?ps \<noteq> []" by (metis empty_iff list.set(1))
        have "sorted ?ps" by (rule sorted_wrt_filter) (simp del: upt_Suc)
        from sorted_le_last [OF this mem] q(1) ne show False by (simp del: upt_Suc)
      qed
    qed
    have "filter is_prime [0..<Suc (Suc r)] = ?ps @ [Suc r]"
      unfolding upt filter_append using True by simp
    moreover have "PrimePi (Suc r) = Suc (PrimePi r)" using True by (simp add: PrimePi_Suc)
    moreover have "first_primes (Suc (PrimePi r)) = ?ps @ [next_prime ?m]"
      unfolding first_primes.simps Let_def Suc.IH by (rule refl)
    ultimately show ?thesis unfolding np by simp
  qed
qed

lemma isqrt_nat_ge: "m * m \<le> n \<Longrightarrow> m \<le> isqrt_nat n"
proof (rule ccontr)
  assume mm: "m * m \<le> n" and "\<not> m \<le> isqrt_nat n"
  then have "isqrt_nat n + 1 \<le> m" by linarith
  from mult_le_mono [OF this this]
  have "(isqrt_nat n + 1) * (isqrt_nat n + 1) \<le> m * m" .
  with isqrt_nat_spec [of n] mm show False by linarith
qed

lemma small_prime_factor:
  assumes "2 \<le> n" "\<not> is_prime n"
  shows "\<exists>p. is_prime p \<and> p \<le> isqrt_nat n \<and> p dvd n"
proof -
  from assms obtain d where d: "2 \<le> d" "d < n" "d dvd n" by (auto simp: is_prime_def)
  then obtain e where e: "n = d * e" by (auto simp: dvd_def)
  with d have e2: "2 \<le> e" by (cases "e = 0"; cases "e = 1") auto
  let ?m = "min d e"
  have "?m * ?m \<le> d * e" by (intro mult_le_mono) simp_all
  then have m_le: "?m \<le> isqrt_nat n" unfolding e by (rule isqrt_nat_ge)
  have m2: "2 \<le> ?m" using d(1) e2 by simp
  have m_dvd: "?m dvd n" unfolding e by (cases "d \<le> e") (simp_all add: min_def)
  from prime_factor_exists [OF m2] obtain p where p: "is_prime p" "p dvd ?m" by blast
  have "p \<le> ?m" using p(2) m2 by (intro dvd_imp_le) simp_all
  with p m_le m_dvd show ?thesis by (meson dvd_trans le_trans)
qed

lemma unsieved_numbers:
  assumes "1 \<le> X"
  shows "{n \<in> {1..X}. \<forall>p \<in> set (filter is_prime [0..<Suc (isqrt_nat X)]). \<not> p dvd n} =
      insert 1 (primes_in (isqrt_nat X) X)"
proof (intro set_eqI iffI)
  fix n
  assume "n \<in> {n \<in> {1..X}. \<forall>p \<in> set (filter is_prime [0..<Suc (isqrt_nat X)]). \<not> p dvd n}"
  then have n: "1 \<le> n" "n \<le> X" and nd: "\<And>p. is_prime p \<Longrightarrow> p \<le> isqrt_nat X \<Longrightarrow> \<not> p dvd n"
    unfolding mem_Collect_eq ball_primes_upto by auto
  show "n \<in> insert 1 (primes_in (isqrt_nat X) X)"
  proof (cases "n = 1")
    case False
    with n have n2: "2 \<le> n" by simp
    have mono: "isqrt_nat n \<le> isqrt_nat X"
      using isqrt_nat_spec [of n] n(2) by (intro isqrt_nat_ge) simp
    have prime: "is_prime n"
    proof (rule ccontr)
      assume "\<not> is_prime n"
      from small_prime_factor [OF n2 this] obtain p where
        "is_prime p" "p \<le> isqrt_nat n" "p dvd n" by blast
      with nd [of p] mono show False by simp
    qed
    have "isqrt_nat X < n" using nd [OF prime] by (cases "n \<le> isqrt_nat X") simp_all
    with prime n show ?thesis by (simp add: primes_in_iff)
  qed simp
next
  fix n
  assume "n \<in> insert 1 (primes_in (isqrt_nat X) X)"
  then consider "n = 1" | "is_prime n" "isqrt_nat X < n" "n \<le> X"
    by (auto simp: primes_in_iff)
  then show "n \<in> {n \<in> {1..X}. \<forall>p \<in> set (filter is_prime [0..<Suc (isqrt_nat X)]). \<not> p dvd n}"
    unfolding mem_Collect_eq ball_primes_upto
  proof cases
    case 1
    then show "n \<in> {1..X} \<and> (\<forall>p. is_prime p \<and> p \<le> isqrt_nat X \<longrightarrow> \<not> p dvd n)"
      using assms by (auto simp: is_prime_def)
  next
    case 2
    have "\<not> p dvd n" if "is_prime p" "p \<le> isqrt_nat X" for p
    proof
      assume "p dvd n"
      moreover have "2 \<le> p" "p < n" using that 2(2) by (simp_all add: is_prime_def)
      ultimately show False using 2(1) by (auto simp: is_prime_def)
    qed
    moreover have "1 \<le> n" using 2(1) by (simp add: is_prime_def)
    ultimately show "n \<in> {1..X} \<and> (\<forall>p. is_prime p \<and> p \<le> isqrt_nat X \<longrightarrow> \<not> p dvd n)"
      using 2(3) by auto
  qed
qed

lemma phi_legendre:
  assumes "1 \<le> X"
  shows "phi (int X) (int (PrimePi (isqrt_nat X))) =
      1 + int (PrimePi X) - int (PrimePi (isqrt_nat X))"
proof -
  let ?P = "\<lambda>n. \<forall>p \<in> set (filter is_prime [0..<Suc (isqrt_nat X)]). \<not> p dvd n"
  have "length (filter ?P [1..<Suc X]) = card (set (filter ?P [1..<Suc X]))"
    by (rule distinct_card [symmetric]) simp
  also have "set (filter ?P [1..<Suc X]) = {n \<in> {1..X}. ?P n}" by auto
  also have "\<dots> = insert 1 (primes_in (isqrt_nat X) X)" by (rule unsieved_numbers [OF assms])
  also have "card \<dots> = 1 + card (primes_in (isqrt_nat X) X)"
    by (simp add: primes_in_iff is_prime_def)
  finally have "length (filter ?P [1..<Suc X]) = 1 + card (primes_in (isqrt_nat X) X)" .
  moreover have "isqrt_nat X \<le> X"
    using isqrt_nat_spec [of X] by (cases "isqrt_nat X") (auto simp: Suc_le_eq)
  ultimately show ?thesis
    using PrimePi_diff [of "isqrt_nat X" X] by (simp add: phi_def first_primes_PrimePi)
qed

lemma PrimePi_small: "n < 2 \<Longrightarrow> PrimePi n = 0"
  by (cases n) (auto simp: PrimePi_def is_prime_def)

lemma pi_simple_correct: "pi_simple x = int (PrimePi (nat x))"
proof (induction x rule: pi_simple.induct)
  case (1 x)
  show ?case
  proof (cases "x < 2")
    case True
    then have "nat x < 2" by simp
    with True show ?thesis by (simp add: pi_simple.simps [of x] PrimePi_small)
  next
    case False
    then have X: "1 \<le> nat x" and x: "int (nat x) = x" by simp_all
    have ih: "pi_simple (isqrt x) = int (PrimePi (isqrt_nat (nat x)))"
      using "1.IH" [OF False refl] by (simp add: isqrt_def)
    show ?thesis
      using False phi_legendre [OF X]
      by (simp add: pi_simple.simps [of x] Let_def ih x)
  qed
qed

lemma pi_legendre_correct: "pi_legendre x = int (PrimePi (nat x))"
proof (cases "x < 2")
  case True
  then have "nat x < 2" by simp
  with True show ?thesis by (simp add: pi_legendre_def PrimePi_small)
next
  case False
  then have X: "1 \<le> nat x" and x: "int (nat x) = x" by simp_all
  show ?thesis
    using False phi_legendre [OF X]
    by (simp add: pi_legendre_def Let_def pi_simple_correct isqrt_def x)
qed

subsection \<open>The whole sum\<close>

lemma isqrt_square: "0 \<le> x \<Longrightarrow> isqrt x * isqrt x \<le> x"
proof -
  assume "0 \<le> x"
  have "int (isqrt_nat (nat x) * isqrt_nat (nat x)) \<le> int (nat x)"
    using isqrt_nat_spec [of "nat x"] by linarith
  then show ?thesis using \<open>0 \<le> x\<close> by (simp add: isqrt_def)
qed

lemma quotient_range:
  assumes "0 \<le> x" "p \<in> primes_in (nat y) (nat (isqrt x))"
  shows "isqrt x \<le> x div int p" and "2 \<le> x div int p" and "x div int p < x div max y 1"
proof -
  let ?P = "int p" and ?r = "isqrt x" and ?m = "max y 1"
  from assms(2) have prime: "is_prime p" and yp: "nat y < p" and pr: "p \<le> nat ?r"
    by (simp_all add: primes_in_iff)
  have P2: "2 \<le> ?P" using prime by (simp add: is_prime_def)
  have Pr: "?P \<le> ?r" using pr P2 by linarith
  have mP: "?m \<le> ?P - 1" using yp P2 by linarith
  have m: "0 < ?m" by simp
  have "?r * ?P \<le> ?r * ?r" using Pr P2 by (intro mult_left_mono) linarith+
  then have rP: "?r * ?P \<le> x" using isqrt_square [OF assms(1)] by linarith
  then show r_le: "?r \<le> x div ?P" using int_le_div_iff [of ?P ?r x] P2 by simp
  then show "2 \<le> x div ?P" using Pr P2 by linarith
  let ?q = "x div ?P"
  have Pq: "?P \<le> ?q" using r_le Pr by linarith
  have "?q * ?P \<le> x" using int_le_div_iff [of ?P ?q x] P2 by simp
  moreover have "(?q + 1) * ?m \<le> (?q + 1) * (?P - 1)"
    using mP Pq P2 by (intro mult_left_mono) linarith+
  moreover have "(?q + 1) * (?P - 1) = ?q * ?P + ?P - ?q - 1" by (simp add: algebra_simps)
  ultimately have "(?q + 1) * ?m \<le> x" using Pq by linarith
  then have "?q + 1 \<le> x div ?m" using int_le_div_iff [OF m, of "?q + 1" x] by simp
  then show "?q < x div ?m" by simp
qed

lemma kernel_primes_all:
  assumes "0 \<le> x" "l \<le> 2 \<or> l \<le> isqrt x"
  shows "kernel_primes x y l (x div max y 1) = primes_in (nat y) (nat (isqrt x))"
  using quotient_range [OF assms(1), of _ y] assms(2)
  unfolding kernel_primes_def by (auto intro: order_trans)

text \<open>
  C4. A thread of \<^verbatim>\<open>P2_OpenMP\<close> or \<^verbatim>\<open>B_OpenMP\<close> whose interval
  \<open>[thread_low, min(thread_low + thread_dist, z))\<close> is not empty returns the sum of
  \<open>PrimePi(x / p) - PrimePi(thread_low - 1)\<close> over the primes \<open>p\<close> in \<open>(y, isqrt(x)]\<close>
  whose quotient \<open>x / p\<close> lies in the interval, the number of these primes as
  \<^verbatim>\<open>iters\<close>, and the number of primes of the interval as \<^verbatim>\<open>pix\<close>. Whatever the number of
  threads and the distances that the load balancer answers, as long as each is at least 1
  and the loop is given the batches it asks for, the loop with its sequential fold adds up
  the sum of \<open>PrimePi(x / p)\<close> over all primes \<open>p\<close> with \<open>y < p \<le> isqrt(x)\<close>:
  \<^verbatim>\<open>P2_OpenMP\<close> returns this sum plus its initial term, and \<^verbatim>\<open>B_OpenMP\<close>, when it does
  not resume from a backup file, returns this sum.
\<close>

theorem kernel_sum_any_partition:
  assumes "4 \<le> x" "1 \<le> threads"
  shows
    "(1 \<le> low + d * i \<and> low + d * i < z \<and> 1 \<le> d \<longrightarrow>
        P2_thread x y z low i d =
          Some \<lparr>tr_sum = (\<Sum>p \<in> kernel_primes x y (low + d * i) (min (low + d * i + d) z).
                            int (PrimePi (nat x div p)) - int (PrimePi (nat (low + d * i - 1)))),
                tr_pix = int (PrimePi (nat (min (low + d * i + d) z - 1))) -
                         int (PrimePi (nat (low + d * i - 1))),
                tr_iters = int (card (kernel_primes x y (low + d * i)
                                        (min (low + d * i + d) z)))\<rparr> \<and>
        B_thread x y z low i d = P2_thread x y z low i d) \<and>
     (enough 2 (cpp_div x (max y 1)) threads dists \<longrightarrow>
        P2_OpenMP x y threads dists =
          Some (if pi_simple y \<ge> pi_simple (isqrt x) then 0
                else cpp_div ((pi_simple y - 2) * (pi_simple y + 1)) 2 -
                     cpp_div ((pi_simple (isqrt x) - 2) * (pi_simple (isqrt x) + 1)) 2 +
                     (\<Sum>p \<in> primes_in (nat y) (nat (isqrt x)). int (PrimePi (nat x div p))))) \<and>
     (enough (isqrt x) (cpp_div x (max y 1)) threads dists \<and>
      \<not> is_resume json ''B'' [(''x'', x), (''y'', y)] \<longrightarrow>
        B_OpenMP json now (nat x) y (cpp_div x (max y 1)) threads dists time =
          Some (\<Sum>p \<in> primes_in (nat y) (nat (isqrt x)). int (PrimePi (nat x div p))))"
proof (intro conjI impI)
  have x0: "0 \<le> x" using assms(1) by simp
  have z: "cpp_div x (max y 1) = x div max y 1" using x0 by (simp add: cpp_div_nonneg)
  {
    assume a: "1 \<le> low + d * i \<and> low + d * i < z \<and> 1 \<le> d"
    then have a': "1 \<le> low + d * i" "low + d * i < z" "1 \<le> d" by simp_all
    note r = thread_result [OF x0 a', of y]
    show "P2_thread x y z low i d =
          Some \<lparr>tr_sum = (\<Sum>p \<in> kernel_primes x y (low + d * i) (min (low + d * i + d) z).
                            int (PrimePi (nat x div p)) - int (PrimePi (nat (low + d * i - 1)))),
                tr_pix = int (PrimePi (nat (min (low + d * i + d) z - 1))) -
                         int (PrimePi (nat (low + d * i - 1))),
                tr_iters = int (card (kernel_primes x y (low + d * i)
                                        (min (low + d * i + d) z)))\<rparr>"
      by (rule r(1))
    show "B_thread x y z low i d = P2_thread x y z low i d"
      unfolding r by (rule refl)
  }
  {
    assume en: "enough 2 (cpp_div x (max y 1)) threads dists"
    have pi1: "(0::int) = int (PrimePi (nat (2 - 1)))" by (simp add: PrimePi_small)
    have one: "(1::int) \<le> 2" by simp
    note run = P2_batches_correct [OF x0 assms(2) one en pi1, where y = y]
    have all: "kernel_primes x y 2 (cpp_div x (max y 1)) = primes_in (nat y) (nat (isqrt x))"
      unfolding z by (rule kernel_primes_all [OF x0]) simp
    show "P2_OpenMP x y threads dists =
          Some (if pi_simple y \<ge> pi_simple (isqrt x) then 0
                else cpp_div ((pi_simple y - 2) * (pi_simple y + 1)) 2 -
                     cpp_div ((pi_simple (isqrt x) - 2) * (pi_simple (isqrt x) + 1)) 2 +
                     (\<Sum>p \<in> primes_in (nat y) (nat (isqrt x)). int (PrimePi (nat x div p))))"
      using assms(1) run unfolding all by (simp add: P2_OpenMP_def Let_def)
  }
  {
    assume a: "enough (isqrt x) (cpp_div x (max y 1)) threads dists \<and>
      \<not> is_resume json ''B'' [(''x'', x), (''y'', y)]"
    then have en: "enough (isqrt x) (cpp_div x (max y 1)) threads dists"
      and nr: "\<not> is_resume json ''B'' [(''x'', x), (''y'', y)]"
      by simp_all
    have "2 \<le> isqrt_nat (nat x)" using assms(1) by (intro isqrt_nat_ge) simp
    then have low: "1 \<le> isqrt x" by (simp add: isqrt_def)
    have pi: "pi_simple (isqrt x - 1) = int (PrimePi (nat (isqrt x - 1)))"
      by (rule pi_simple_correct)
    note run = B_batches_correct [OF x0 assms(2) low en pi, where y = y and sm = 0]
    have all: "kernel_primes x y (isqrt x) (cpp_div x (max y 1)) =
        primes_in (nat y) (nat (isqrt x))"
      unfolding z by (rule kernel_primes_all [OF x0]) simp
    have x4: "\<not> nat x < 4" and xx: "int (nat x) = x" using assms(1) by simp_all
    show "B_OpenMP json now (nat x) y (cpp_div x (max y 1)) threads dists time =
          Some (\<Sum>p \<in> primes_in (nat y) (nat (isqrt x)). int (PrimePi (nat x div p)))"
      using run nr x4 x0 unfolding all by (simp add: B_OpenMP_def B_resume_def Let_def)
  }
qed

theorem kernel_sum_any_partition_witness:
  "P2_thread 100 3 33 2 1 10 = Some \<lparr>tr_sum = 4, tr_pix = 3, tr_iters = 2\<rparr> \<and>
   B_thread 100 3 33 2 1 10 = Some \<lparr>tr_sum = 4, tr_pix = 3, tr_iters = 2\<rparr> \<and>
   enough 2 (cpp_div 100 (max 3 1)) 2 [5, 10, 20] \<and> P2_OpenMP 100 3 2 [5, 10, 20] = Some 9 \<and>
   enough 2 (cpp_div 100 (max 3 1)) 1 [31] \<and> P2_OpenMP 100 3 1 [31] = Some 9 \<and>
   enough (isqrt 100) (cpp_div 100 (max 3 1)) 3 [4, 3, 2, 1] \<and>
   is_resume Map.empty ''B'' [(''x'', 100), (''y'', 3)] = False \<and>
   B_OpenMP Map.empty 0 (nat 100) 3 (cpp_div 100 (max 3 1)) 3 [4, 3, 2, 1] 0 = Some 14"
proof -
  have x: "(4::int) \<le> 100" and t1: "(1::int) \<le> 1" and t2: "(1::int) \<le> 2" and t3: "(1::int) \<le> 3"
    by simp_all
  have iv: "(1::int) \<le> 2 + 10 * 1 \<and> (2::int) + 10 * 1 < 33 \<and> (1::int) \<le> 10" by simp
  have e1: "enough 2 (cpp_div 100 (max 3 1)) 2 [5, 10, 20]" by code_simp
  have e2: "enough 2 (cpp_div 100 (max 3 1)) 1 [31]" by code_simp
  have e3: "enough (isqrt 100) (cpp_div 100 (max 3 1)) 3 [4, 3, 2, 1]" by code_simp
  have nr: "\<not> is_resume Map.empty ''B'' [(''x'', 100), (''y'', 3)]" by (simp add: is_resume_def)
  have r: "\<lparr>tr_sum = (\<Sum>p \<in> kernel_primes 100 3 (2 + 10 * 1) (min (2 + 10 * 1 + 10) 33).
                       int (PrimePi (nat 100 div p)) - int (PrimePi (nat (2 + 10 * 1 - 1)))),
           tr_pix = int (PrimePi (nat (min (2 + 10 * 1 + 10) 33 - 1))) -
                    int (PrimePi (nat (2 + 10 * 1 - 1))),
           tr_iters = int (card (kernel_primes 100 3 (2 + 10 * 1) (min (2 + 10 * 1 + 10) 33)))\<rparr> =
      \<lparr>tr_sum = 4, tr_pix = 3, tr_iters = 2\<rparr>"
    by code_simp
  have v: "(if pi_simple 3 \<ge> pi_simple (isqrt 100) then 0
            else cpp_div ((pi_simple 3 - 2) * (pi_simple 3 + 1)) 2 -
                 cpp_div ((pi_simple (isqrt 100) - 2) * (pi_simple (isqrt 100) + 1)) 2 +
                 (\<Sum>p \<in> primes_in (nat 3) (nat (isqrt 100)). int (PrimePi (nat 100 div p)))) = 9"
    by code_simp
  have s: "(\<Sum>p \<in> primes_in (nat 3) (nat (isqrt 100)). int (PrimePi (nat 100 div p))) = 14"
    by code_simp
  note A = kernel_sum_any_partition [OF x t2, where low = 2 and d = 10 and i = 1 and z = 33
      and y = 3 and dists = "[5, 10, 20]" and json = Map.empty and now = 0 and time = 0]
  note B = kernel_sum_any_partition [OF x t1, where low = 2 and d = 10 and i = 1 and z = 33
      and y = 3 and dists = "[31]" and json = Map.empty and now = 0 and time = 0]
  note C = kernel_sum_any_partition [OF x t3, where low = 2 and d = 10 and i = 1 and z = 33
      and y = 3 and dists = "[4, 3, 2, 1]" and json = Map.empty and now = 0 and time = 0]
  have th: "P2_thread 100 3 33 2 1 10 = Some \<lparr>tr_sum = 4, tr_pix = 3, tr_iters = 2\<rparr>"
    "B_thread 100 3 33 2 1 10 = P2_thread 100 3 33 2 1 10"
    using A [THEN conjunct1, THEN mp, OF iv] unfolding r by blast+
  have p1: "P2_OpenMP 100 3 2 [5, 10, 20] = Some 9"
    using A [THEN conjunct2, THEN conjunct1, THEN mp, OF e1] unfolding v .
  have p2: "P2_OpenMP 100 3 1 [31] = Some 9"
    using B [THEN conjunct2, THEN conjunct1, THEN mp, OF e2] unfolding v .
  have b: "B_OpenMP Map.empty 0 (nat 100) 3 (cpp_div 100 (max 3 1)) 3 [4, 3, 2, 1] 0 = Some 14"
    using C [THEN conjunct2, THEN conjunct2, THEN mp, OF conjI [OF e3 nr]] unfolding s .
  show ?thesis using th p1 p2 b e1 e2 e3 nr by simp
qed

section \<open>The command-line options\<close>

datatype IsParam = NO_PARAM | REQUIRED_PARAM | OPTIONAL_PARAM

datatype OptionID =
    OPTION_BACKUP | OPTION_RESUME | OPTION_ALPHA_Y | OPTION_ALPHA_Z | OPTION_GOURDON
  | OPTION_GOURDON_64 | OPTION_GOURDON_128 | OPTION_HELP | OPTION_LEGENDRE | OPTION_MEISSEL
  | OPTION_NTHPRIME | OPTION_NUMBER | OPTION_PRIMESIEVE | OPTION_LI | OPTION_LIINV | OPTION_RI
  | OPTION_RIINV | OPTION_PHI | OPTION_AC | OPTION_B | OPTION_D | OPTION_PHI0 | OPTION_SIGMA
  | OPTION_STATUS | OPTION_TEST | OPTION_TIME | OPTION_THREADS | OPTION_VERSION

definition optionMap :: "(string \<times> OptionID \<times> IsParam) list" where
  "optionMap =
     [(''-b'', OPTION_BACKUP, REQUIRED_PARAM),
      (''--backup'', OPTION_BACKUP, REQUIRED_PARAM),
      (''-r'', OPTION_RESUME, OPTIONAL_PARAM),
      (''--resume'', OPTION_RESUME, OPTIONAL_PARAM),
      (''--alpha-y'', OPTION_ALPHA_Y, REQUIRED_PARAM),
      (''--alpha-z'', OPTION_ALPHA_Z, REQUIRED_PARAM),
      (''-g'', OPTION_GOURDON, NO_PARAM),
      (''--gourdon'', OPTION_GOURDON, NO_PARAM),
      (''--gourdon-64'', OPTION_GOURDON_64, NO_PARAM),
      (''--gourdon-128'', OPTION_GOURDON_128, NO_PARAM),
      (''-h'', OPTION_HELP, NO_PARAM),
      (''--help'', OPTION_HELP, NO_PARAM),
      (''-l'', OPTION_LEGENDRE, NO_PARAM),
      (''--legendre'', OPTION_LEGENDRE, NO_PARAM),
      (''-m'', OPTION_MEISSEL, NO_PARAM),
      (''--meissel'', OPTION_MEISSEL, NO_PARAM),
      (''-n'', OPTION_NTHPRIME, NO_PARAM),
      (''--nth-prime'', OPTION_NTHPRIME, NO_PARAM),
      (''--number'', OPTION_NUMBER, REQUIRED_PARAM),
      (''-p'', OPTION_PRIMESIEVE, NO_PARAM),
      (''--primesieve'', OPTION_PRIMESIEVE, NO_PARAM),
      (''--Li'', OPTION_LI, NO_PARAM),
      (''--Li-inverse'', OPTION_LIINV, NO_PARAM),
      (''--Ri'', OPTION_RI, NO_PARAM),
      (''--Ri-inverse'', OPTION_RIINV, NO_PARAM),
      (''--phi'', OPTION_PHI, NO_PARAM),
      (''--AC'', OPTION_AC, NO_PARAM),
      (''-B'', OPTION_B, NO_PARAM),
      (''--B'', OPTION_B, NO_PARAM),
      (''-D'', OPTION_D, NO_PARAM),
      (''--D'', OPTION_D, NO_PARAM),
      (''--Phi0'', OPTION_PHI0, NO_PARAM),
      (''--Sigma'', OPTION_SIGMA, NO_PARAM),
      (''-s'', OPTION_STATUS, OPTIONAL_PARAM),
      (''--status'', OPTION_STATUS, OPTIONAL_PARAM),
      (''--test'', OPTION_TEST, NO_PARAM),
      (''--time'', OPTION_TIME, NO_PARAM),
      (''-t'', OPTION_THREADS, REQUIRED_PARAM),
      (''--threads'', OPTION_THREADS, REQUIRED_PARAM),
      (''-v'', OPTION_VERSION, NO_PARAM),
      (''--version'', OPTION_VERSION, NO_PARAM)]"

text \<open>\<^verbatim>\<open>optionMap.count(s)\<close> and the second component of \<^verbatim>\<open>optionMap[s]\<close>.\<close>

definition option_count :: "string \<Rightarrow> bool" where
  "option_count s = (map_of optionMap s \<noteq> None)"

definition option_param :: "string \<Rightarrow> IsParam" where
  "option_param s = (case map_of optionMap s of Some (optionID, p) \<Rightarrow> p | None \<Rightarrow> NO_PARAM)"

record Option =
  opt_str :: string
  opt_opt :: string
  opt_val :: string

definition is_letter :: "char \<Rightarrow> bool" where
  "is_letter c = (c \<in> set ''abcdefghijklmnopqrstuvwxyzABCDEFGHIJKLMNOPQRSTUVWXYZ'')"

definition is_digit :: "char \<Rightarrow> bool" where
  "is_digit c = (c \<in> set ''0123456789'')"

definition isOption :: "string \<Rightarrow> bool" where
  "isOption s =
     ((length s \<ge> 2 \<and> s ! 0 = CHR ''-'' \<and> is_letter (s ! 1)) \<or>
      (length s \<ge> 3 \<and> s ! 0 = CHR ''-'' \<and> s ! 1 = CHR ''-'' \<and> is_letter (s ! 2)))"

text \<open>The messages of the two kinds of \<^verbatim>\<open>primecount_error\<close> that \<^verbatim>\<open>parseOption\<close> throws.\<close>

definition unrecognized :: "string \<Rightarrow> string" where
  "unrecognized s = ''unrecognized option '' @ [CHR 0x27] @ s @ [CHR 0x27]"

definition missing_value :: "string \<Rightarrow> string" where
  "missing_value s = ''missing value for option '' @ [CHR 0x27] @ s @ [CHR 0x27]"

text \<open>
  \<^verbatim>\<open>parseOption(argc, argv, i)\<close>, called with \<open>i < argc\<close>: the result is the message of
  the error thrown, or the option and the new value of \<open>i\<close>.
\<close>

definition parseOption :: "string list \<Rightarrow> nat \<Rightarrow> string + (Option \<times> nat)" where
  "parseOption argv i =
     (let argc = length argv;
          s = argv ! i
      in if s = [] then Inl (unrecognized [])
         else if option_count s then
           (case option_param s of
              REQUIRED_PARAM \<Rightarrow>
                (let v = (if i + 1 < argc then argv ! (i + 1) else [])
                 in if v = [] \<or> isOption v then Inl (missing_value s)
                    else Inr (\<lparr>opt_str = s, opt_opt = s, opt_val = v\<rparr>, i + 1))
            | OPTIONAL_PARAM \<Rightarrow>
                (if i + 1 < argc \<and> argv ! (i + 1) \<noteq> [] \<and> \<not> isOption (argv ! (i + 1))
                 then Inr (\<lparr>opt_str = s, opt_opt = s, opt_val = argv ! (i + 1)\<rparr>, i + 1)
                 else Inr (\<lparr>opt_str = s, opt_opt = s, opt_val = []\<rparr>, i))
            | NO_PARAM \<Rightarrow> Inr (\<lparr>opt_str = s, opt_opt = s, opt_val = []\<rparr>, i))
         else if isOption s then
           (if CHR ''='' \<in> set s then
              (let opt = takeWhile (\<lambda>c. c \<noteq> CHR ''='') s;
                   val = tl (dropWhile (\<lambda>c. c \<noteq> CHR ''='') s)
               in if \<not> option_count opt then Inl (unrecognized opt)
                  else if val = [] \<and> option_param opt = REQUIRED_PARAM
                  then Inl (missing_value opt)
                  else Inr (\<lparr>opt_str = s, opt_opt = opt, opt_val = val\<rparr>, i))
            else
              (let opt = takeWhile (\<lambda>c. \<not> is_digit c) s;
                   val = dropWhile (\<lambda>c. \<not> is_digit c) s
               in if \<not> option_count opt then Inl (unrecognized s)
                  else if val = [] \<and> option_param opt = REQUIRED_PARAM
                  then Inl (missing_value opt)
                  else Inr (\<lparr>opt_str = s, opt_opt = opt, opt_val = val\<rparr>, i)))
         else
           (if \<not> list_ex is_digit s then Inl (unrecognized s)
            else if hd s = CHR ''-'' then Inl (unrecognized s)
            else Inr (\<lparr>opt_str = s, opt_opt = ''--number'', opt_val = s\<rparr>, i)))"

text \<open>
  Modelled from the spec: \<^verbatim>\<open>cmdoptions.hpp\<close>, \<^verbatim>\<open>help.cpp\<close>, \<^verbatim>\<open>backup.cpp\<close> and the
  number parser are not among the sources. \<^verbatim>\<open>CmdOptions\<close> has the fields that
  \<^verbatim>\<open>parseOptions\<close> uses; \<^verbatim>\<open>is_resume()\<close> is true when a resume file is set;
  \<^verbatim>\<open>help\<close>, \<^verbatim>\<open>version\<close> and \<^verbatim>\<open>test\<close> end the process with an exit code. What the
  environment answers is the record \<open>Env\<close>: the value of a number (none when the parser
  throws), whether a text is a floating point number, whether a file can be opened, the
  name of the backup file at the start, and the exit code of the self-test.
\<close>

record CmdOptions =
  co_x :: int
  co_a :: int
  co_option :: "OptionID option"
  co_time :: bool
  co_resumeFile :: string
  co_backupFile :: string

record Env =
  to_maxint :: "string \<Rightarrow> int option"
  is_double :: "string \<Rightarrow> bool"
  file_opens :: "string \<Rightarrow> bool"
  backup_file0 :: string
  test_exit :: int

datatype 'a outcome = Returned 'a | Raised string | Exited int

text \<open>The message of the error that \<^verbatim>\<open>Option::to\<close> throws.\<close>

definition invalid_option :: "Option \<Rightarrow> string" where
  "invalid_option opt =
     ''invalid option '' @ [CHR 0x27] @ opt_opt opt @ ''='' @ opt_val opt @ [CHR 0x27]"

text \<open>
  One turn of the \<^verbatim>\<open>switch\<close> of \<^verbatim>\<open>parseOptions\<close>, with \<^verbatim>\<open>optionStatus\<close> and
  \<^verbatim>\<open>optionResume\<close>: the state is \<^verbatim>\<open>opts\<close>, \<^verbatim>\<open>numbers\<close> and the name that
  \<^verbatim>\<open>backup_file()\<close> returns.
\<close>

datatype switch_result = Continue CmdOptions "int list" string | Raise string | Exit int

definition option_switch ::
  "Env \<Rightarrow> OptionID \<Rightarrow> Option \<Rightarrow> CmdOptions \<Rightarrow> int list \<Rightarrow> string \<Rightarrow> switch_result" where
  "option_switch env optionID opt opts numbers bfile =
     (case optionID of
        OPTION_BACKUP \<Rightarrow> Continue opts numbers (opt_val opt)
      | OPTION_RESUME \<Rightarrow>
          (let file = (if opt_val opt \<noteq> [] then opt_val opt else bfile)
           in if file_opens env file then Continue (opts\<lparr>co_resumeFile := file\<rparr>) numbers file
              else Raise (''failed to open backup file: '' @ file))
      | OPTION_ALPHA_Y \<Rightarrow>
          (if is_double env (opt_val opt) then Continue opts numbers bfile
           else Raise (invalid_option opt))
      | OPTION_ALPHA_Z \<Rightarrow>
          (if is_double env (opt_val opt) then Continue opts numbers bfile
           else Raise (invalid_option opt))
      | OPTION_NUMBER \<Rightarrow>
          (case to_maxint env (opt_val opt) of
             None \<Rightarrow> Raise (invalid_option opt)
           | Some n \<Rightarrow> Continue opts (numbers @ [n]) bfile)
      | OPTION_THREADS \<Rightarrow>
          (case to_maxint env (opt_val opt) of
             None \<Rightarrow> Raise (invalid_option opt)
           | Some n \<Rightarrow> Continue opts numbers bfile)
      | OPTION_HELP \<Rightarrow> Exit 0
      | OPTION_STATUS \<Rightarrow>
          (if opt_val opt \<noteq> [] \<and> to_maxint env (opt_val opt) = None
           then Raise (invalid_option opt)
           else Continue (opts\<lparr>co_time := True\<rparr>) numbers bfile)
      | OPTION_TIME \<Rightarrow> Continue (opts\<lparr>co_time := True\<rparr>) numbers bfile
      | OPTION_TEST \<Rightarrow> Exit (test_exit env)
      | OPTION_VERSION \<Rightarrow> Exit 0
      | _ \<Rightarrow> Continue (opts\<lparr>co_option := Some optionID\<rparr>) numbers bfile)"

text \<open>The part of \<^verbatim>\<open>parseOptions\<close> after the loop.\<close>

definition check_options :: "CmdOptions \<Rightarrow> int list \<Rightarrow> CmdOptions outcome" where
  "check_options opts numbers =
     (if co_resumeFile opts = [] \<and> co_option opts = Some OPTION_PHI \<and> length numbers < 2
      then Raised ''option --phi requires 2 numbers''
      else if co_resumeFile opts = [] \<and> numbers = [] then Raised ''missing x number''
      else
        (let opts1 = (if co_resumeFile opts = [] \<and> co_option opts = Some OPTION_PHI
                      then opts\<lparr>co_a := numbers ! 1\<rparr> else opts);
             opts2 = (if co_resumeFile opts = [] then opts1\<lparr>co_x := numbers ! 0\<rparr> else opts1)
         in if co_backupFile opts2 \<noteq> [] \<and> co_resumeFile opts2 \<noteq> [] \<and>
               co_backupFile opts2 \<noteq> co_resumeFile opts2
            then Raised ''resume and backup file must be identical''
            else Returned opts2))"

lemma parseOption_index: "parseOption argv i = Inr (opt, i') \<Longrightarrow> i \<le> i' \<and> i' \<le> i + 1"
  by (auto simp: parseOption_def Let_def split: if_splits IsParam.splits)

text \<open>The \<^verbatim>\<open>for\<close> loop of \<^verbatim>\<open>parseOptions\<close>, from the index \<open>i\<close>.\<close>

function parse_loop ::
  "Env \<Rightarrow> string list \<Rightarrow> nat \<Rightarrow> CmdOptions \<Rightarrow> int list \<Rightarrow> string \<Rightarrow> CmdOptions outcome" where
  "parse_loop env argv i opts numbers bfile =
     (if i < length argv then
        (case parseOption argv i of
           Inl msg \<Rightarrow> Raised msg
         | Inr (opt, i') \<Rightarrow>
             (case map_of optionMap (opt_opt opt) of
                None \<Rightarrow> parse_loop env argv (i' + 1) opts numbers bfile
              | Some (optionID, p) \<Rightarrow>
                  (case option_switch env optionID opt opts numbers bfile of
                     Raise msg \<Rightarrow> Raised msg
                   | Exit code \<Rightarrow> Exited code
                   | Continue opts' numbers' bfile' \<Rightarrow>
                       parse_loop env argv (i' + 1) opts' numbers' bfile')))
      else check_options opts numbers)"
  by pat_completeness auto
termination
proof (relation "measure (\<lambda>(env, argv, i, opts, numbers, bfile). length argv - i)")
  show "wf (measure (\<lambda>(env, argv, i, opts, numbers, bfile). length argv - i))" by simp
next
  fix env :: Env and argv i opts numbers bfile r opt i'
  assume "i < length argv" "parseOption argv i = Inr r" "(opt, i') = r"
  then have "i \<le> i'" using parseOption_index [of argv i opt i'] by simp
  with \<open>i < length argv\<close>
  show "((env, argv, i' + 1, opts, numbers, bfile), (env, argv, i, opts, numbers, bfile)) \<in>
      measure (\<lambda>(env, argv, i, opts, numbers, bfile). length argv - i)"
    by simp
next
  fix env :: Env and argv i opts numbers bfile r opt i' and opts' :: CmdOptions
    and numbers' :: "int list" and bfile' :: string
  assume "i < length argv" "parseOption argv i = Inr r" "(opt, i') = r"
  then have "i \<le> i'" using parseOption_index [of argv i opt i'] by simp
  with \<open>i < length argv\<close>
  show "((env, argv, i' + 1, opts', numbers', bfile'), (env, argv, i, opts, numbers, bfile)) \<in>
      measure (\<lambda>(env, argv, i, opts, numbers, bfile). length argv - i)"
    by simp
qed

declare parse_loop.simps [simp del]

definition initial_options :: CmdOptions where
  "initial_options =
     \<lparr>co_x = - 1, co_a = - 1, co_option = None, co_time = False, co_resumeFile = [],
      co_backupFile = []\<rparr>"

definition parseOptions :: "Env \<Rightarrow> string list \<Rightarrow> CmdOptions outcome" where
  "parseOptions env argv =
     (if length argv \<le> 1 then Exited 1
      else parse_loop env argv 1 initial_options [] (backup_file0 env))"

text \<open>
  The indices at which the loop of \<^verbatim>\<open>parseOptions\<close> calls \<^verbatim>\<open>parseOption\<close>, from the
  index \<open>i\<close> on, as long as no turn of the \<^verbatim>\<open>switch\<close> ends the loop: an argument that
  the option before it takes as its value is not among them.
\<close>

function parse_positions :: "string list \<Rightarrow> nat \<Rightarrow> nat list" where
  "parse_positions argv i =
     (if i < length argv then
        i # (case parseOption argv i of
               Inl msg \<Rightarrow> []
             | Inr (opt, i') \<Rightarrow> parse_positions argv (i' + 1))
      else [])"
  by pat_completeness auto
termination
proof (relation "measure (\<lambda>(argv, i). length argv - i)")
  show "wf (measure (\<lambda>(argv, i). length argv - i))" by simp
next
  fix argv i r opt i'
  assume "i < length argv" "parseOption argv i = Inr r" "(opt, i') = r"
  then have "i \<le> i'" using parseOption_index [of argv i opt i'] by simp
  with \<open>i < length argv\<close>
  show "((argv, i' + 1), (argv, i)) \<in> measure (\<lambda>(argv, i). length argv - i)"
    by simp
qed

declare parse_positions.simps [simp del]

definition is_returned :: "'a outcome \<Rightarrow> bool" where
  "is_returned out = (case out of Returned r \<Rightarrow> True | Raised msg \<Rightarrow> False | Exited code \<Rightarrow> False)"

text \<open>\<open>contains msg t\<close>: the text \<open>t\<close> occurs in \<open>msg\<close>.\<close>

definition contains :: "string \<Rightarrow> string \<Rightarrow> bool" where
  "contains msg t = list_ex (\<lambda>k. take (length t) (drop k msg) = t) [0..<Suc (length msg)]"

lemma contains_middle: "contains (a @ t @ b) t"
proof -
  have "length a \<in> set [0..<Suc (length (a @ t @ b))]" by simp
  moreover have "take (length t) (drop (length a) (a @ t @ b)) = t" by simp
  ultimately show ?thesis unfolding contains_def list_ex_iff by blast
qed

lemma option_keys: "option_count s \<Longrightarrow> isOption s"
proof -
  assume "option_count s"
  then obtain v where "map_of optionMap s = Some v" by (auto simp: option_count_def)
  then have mem: "(s, v) \<in> set optionMap" by (rule map_of_SomeD)
  have "list_all (\<lambda>(k, v). isOption k) optionMap" by code_simp
  with mem show ?thesis by (auto simp: list_all_iff)
qed

lemma parse_loop_raises:
  "i < length argv \<Longrightarrow> parseOption argv i = Inl msg \<Longrightarrow>
     parse_loop env argv i opts numbers bfile = Raised msg"
  by (simp add: parse_loop.simps [of env argv i])

lemma parse_loop_not_returned:
  "k \<in> set (parse_positions argv i) \<Longrightarrow> parseOption argv k = Inl msg \<Longrightarrow>
     \<not> is_returned (parse_loop env argv i opts numbers bfile)"
proof (induction env argv i opts numbers bfile rule: parse_loop.induct)
  case (1 env argv i opts numbers bfile)
  from "1.prems"(1) have lt: "i < length argv"
    by (simp add: parse_positions.simps [of argv i] split: if_splits)
  show ?case
  proof (cases "parseOption argv i")
    case (Inl m)
    then show ?thesis using lt by (simp add: parse_loop.simps [of env argv i] is_returned_def)
  next
    case (Inr r)
    obtain opt i' where r: "r = (opt, i')" by (cases r)
    have "k \<noteq> i" using Inr "1.prems"(2) by auto
    then have mem: "k \<in> set (parse_positions argv (i' + 1))"
      using "1.prems"(1) lt Inr r by (simp add: parse_positions.simps [of argv i])
    show ?thesis
    proof (cases "map_of optionMap (opt_opt opt)")
      case None
      from "1.IH"(1) [OF lt Inr r [symmetric] None mem "1.prems"(2)] show ?thesis
        using lt Inr r None by (simp add: parse_loop.simps [of env argv i])
    next
      case (Some v)
      obtain optionID p where v: "v = (optionID, p)" by (cases v)
      show ?thesis
      proof (cases "option_switch env optionID opt opts numbers bfile")
        case (Continue opts' numbers' bfile')
        from "1.IH"(2) [OF lt Inr r [symmetric] Some v [symmetric] Continue mem "1.prems"(2)]
        show ?thesis
          using lt Inr r Some v Continue by (simp add: parse_loop.simps [of env argv i])
      next
        case (Raise m)
        then show ?thesis
          using lt Inr r Some v
          by (simp add: parse_loop.simps [of env argv i] is_returned_def)
      next
        case (Exit c)
        then show ?thesis
          using lt Inr r Some v
          by (simp add: parse_loop.simps [of env argv i] is_returned_def)
      qed
    qed
  qed
qed

lemma parse_positions_bound:
  "k \<in> set (parse_positions argv i) \<Longrightarrow> i \<le> k \<and> k < length argv"
proof (induction argv i rule: parse_positions.induct)
  case (1 argv i)
  from "1.prems" have lt: "i < length argv"
    by (simp add: parse_positions.simps [of argv i] split: if_splits)
  show ?case
  proof (cases "k = i")
    case True
    with lt show ?thesis by simp
  next
    case False
    with "1.prems" lt obtain opt i' where r: "parseOption argv i = Inr (opt, i')"
      and mem: "k \<in> set (parse_positions argv (i' + 1))"
      by (cases "parseOption argv i") (auto simp: parse_positions.simps [of argv i])
    from "1.IH" [OF lt r refl mem] parseOption_index [OF r] show ?thesis by simp
  qed
qed

lemma option_keys_no_equals: "option_count s \<Longrightarrow> CHR ''='' \<notin> set s"
proof -
  assume "option_count s"
  then obtain v where "map_of optionMap s = Some v" by (auto simp: option_count_def)
  then have mem: "(s, v) \<in> set optionMap" by (rule map_of_SomeD)
  have "list_all (\<lambda>(k, v). CHR ''='' \<notin> set k) optionMap" by code_simp
  with mem show ?thesis by (auto simp: list_all_iff)
qed

lemma isOption_nonempty: "isOption s \<Longrightarrow> s \<noteq> []"
  by (auto simp: isOption_def)

definition example_env :: Env where
  "example_env =
     \<lparr>to_maxint = (\<lambda>s. if s = ''100'' then Some 100 else None), is_double = (\<lambda>s. False),
      file_opens = (\<lambda>s. False), backup_file0 = ''primecount.backup'', test_exit = 0\<rparr>"

text \<open>
  C9 (as amended). Let \<open>k\<close> be an index at which the loop of \<^verbatim>\<open>parseOptions\<close> parses an
  option, that is, not the value that the option before it takes. When the argument at
  \<open>k\<close> is empty, is an option with an unknown name, is an option that requires a value and
  is followed by no value, by an empty one or by an option, is \<open>--opt=\<close> with an empty
  value for an option that requires one, is not an option and has no digit, or is not an
  option and starts with \<open>-\<close>, then \<^verbatim>\<open>parseOption\<close> throws; the message is
  \<open>unrecognized option 't'\<close> or \<open>missing value for option 't'\<close>, where \<open>t\<close> is the
  argument, or, for an argument of the form \<open>--opt=N\<close>, its part before the \<open>=\<close>. When
  \<^verbatim>\<open>parseOption\<close> throws at \<open>k\<close>, the loop arriving at \<open>k\<close> throws the same error, and
  \<^verbatim>\<open>parseOptions\<close> does not return normally, whatever the environment.
\<close>

theorem malformed_option_raises:
  assumes "k \<in> set (parse_positions argv 1)"
  shows
    "(argv ! k = [] \<longrightarrow> parseOption argv k = Inl (unrecognized [])) \<and>
     (isOption (argv ! k) \<and> CHR ''='' \<in> set (argv ! k) \<and>
      \<not> option_count (takeWhile (\<lambda>c. c \<noteq> CHR ''='') (argv ! k)) \<longrightarrow>
        parseOption argv k = Inl (unrecognized (takeWhile (\<lambda>c. c \<noteq> CHR ''='') (argv ! k)))) \<and>
     (isOption (argv ! k) \<and> CHR ''='' \<notin> set (argv ! k) \<and> \<not> option_count (argv ! k) \<and>
      \<not> option_count (takeWhile (\<lambda>c. \<not> is_digit c) (argv ! k)) \<longrightarrow>
        parseOption argv k = Inl (unrecognized (argv ! k))) \<and>
     (option_count (argv ! k) \<and> option_param (argv ! k) = REQUIRED_PARAM \<and>
      (length argv \<le> k + 1 \<or> argv ! (k + 1) = [] \<or> isOption (argv ! (k + 1))) \<longrightarrow>
        parseOption argv k = Inl (missing_value (argv ! k))) \<and>
     (isOption (argv ! k) \<and> CHR ''='' \<in> set (argv ! k) \<and>
      option_count (takeWhile (\<lambda>c. c \<noteq> CHR ''='') (argv ! k)) \<and>
      option_param (takeWhile (\<lambda>c. c \<noteq> CHR ''='') (argv ! k)) = REQUIRED_PARAM \<and>
      tl (dropWhile (\<lambda>c. c \<noteq> CHR ''='') (argv ! k)) = [] \<longrightarrow>
        parseOption argv k = Inl (missing_value (takeWhile (\<lambda>c. c \<noteq> CHR ''='') (argv ! k)))) \<and>
     (\<not> isOption (argv ! k) \<and> argv ! k \<noteq> [] \<and>
      (\<not> list_ex is_digit (argv ! k) \<or> hd (argv ! k) = CHR ''-'') \<longrightarrow>
        parseOption argv k = Inl (unrecognized (argv ! k))) \<and>
     (\<forall>msg. parseOption argv k = Inl msg \<longrightarrow>
        parse_loop env argv k opts numbers bfile = Raised msg \<and>
        \<not> is_returned (parseOptions env argv)) \<and>
     contains (unrecognized t) t \<and> contains (missing_value t) t"
proof -
  let ?s = "argv ! k"
  from parse_positions_bound [OF assms] have k: "1 \<le> k" "k < length argv" by simp_all
  have c1: "?s = [] \<longrightarrow> parseOption argv k = Inl (unrecognized [])"
    by (simp add: parseOption_def)
  have c2: "isOption ?s \<and> CHR ''='' \<in> set ?s \<and>
      \<not> option_count (takeWhile (\<lambda>c. c \<noteq> CHR ''='') ?s) \<longrightarrow>
        parseOption argv k = Inl (unrecognized (takeWhile (\<lambda>c. c \<noteq> CHR ''='') ?s))"
    using option_keys_no_equals [of ?s] isOption_nonempty [of ?s]
    by (auto simp: parseOption_def Let_def)
  have c3: "isOption ?s \<and> CHR ''='' \<notin> set ?s \<and> \<not> option_count ?s \<and>
      \<not> option_count (takeWhile (\<lambda>c. \<not> is_digit c) ?s) \<longrightarrow>
        parseOption argv k = Inl (unrecognized ?s)"
    using isOption_nonempty [of ?s] by (auto simp: parseOption_def Let_def)
  have c4: "option_count ?s \<and> option_param ?s = REQUIRED_PARAM \<and>
      (length argv \<le> k + 1 \<or> argv ! (k + 1) = [] \<or> isOption (argv ! (k + 1))) \<longrightarrow>
        parseOption argv k = Inl (missing_value ?s)"
    using isOption_nonempty [OF option_keys, of ?s] by (auto simp: parseOption_def Let_def)
  have c5: "isOption ?s \<and> CHR ''='' \<in> set ?s \<and>
      option_count (takeWhile (\<lambda>c. c \<noteq> CHR ''='') ?s) \<and>
      option_param (takeWhile (\<lambda>c. c \<noteq> CHR ''='') ?s) = REQUIRED_PARAM \<and>
      tl (dropWhile (\<lambda>c. c \<noteq> CHR ''='') ?s) = [] \<longrightarrow>
        parseOption argv k = Inl (missing_value (takeWhile (\<lambda>c. c \<noteq> CHR ''='') ?s))"
    using option_keys_no_equals [of ?s] isOption_nonempty [of ?s]
    by (auto simp: parseOption_def Let_def)
  have c6: "\<not> isOption ?s \<and> ?s \<noteq> [] \<and> (\<not> list_ex is_digit ?s \<or> hd ?s = CHR ''-'') \<longrightarrow>
        parseOption argv k = Inl (unrecognized ?s)"
    using option_keys [of ?s] by (auto simp: parseOption_def Let_def)
  have c7: "\<forall>msg. parseOption argv k = Inl msg \<longrightarrow>
        parse_loop env argv k opts numbers bfile = Raised msg \<and>
        \<not> is_returned (parseOptions env argv)"
  proof (intro allI impI conjI)
    fix msg assume e: "parseOption argv k = Inl msg"
    show "parse_loop env argv k opts numbers bfile = Raised msg"
      by (rule parse_loop_raises [OF k(2) e])
    show "\<not> is_returned (parseOptions env argv)"
      using parse_loop_not_returned [OF assms e] k by (simp add: parseOptions_def)
  qed
  have c8: "contains (unrecognized t) t" "contains (missing_value t) t"
    unfolding unrecognized_def missing_value_def
    using contains_middle [of "''unrecognized option '' @ [CHR 0x27]" t "[CHR 0x27]"]
      contains_middle [of "''missing value for option '' @ [CHR 0x27]" t "[CHR 0x27]"]
    by simp_all
  from c1 c2 c3 c4 c5 c6 c7 c8 show ?thesis by blast
qed

theorem malformed_option_raises_witness:
  "2 \<in> set (parse_positions [''primecount'', ''100'', ''--foo''] 1) \<and>
   parseOption [''primecount'', ''100'', ''--foo''] 2 = Inl (unrecognized ''--foo'') \<and>
   parse_loop example_env [''primecount'', ''100'', ''--foo''] 2 initial_options [] [] =
     Raised (unrecognized ''--foo'') \<and>
   is_returned (parseOptions example_env [''primecount'', ''100'', ''--foo'']) = False \<and>
   contains (unrecognized ''--foo'') ''--foo'' \<and>
   parseOption [''primecount'', ''''] 1 = Inl (unrecognized []) \<and>
   parseOption [''primecount'', ''--foo=5''] 1 = Inl (unrecognized ''--foo'') \<and>
   parseOption [''primecount'', ''--threads'', ''--time''] 1 = Inl (missing_value ''--threads'') \<and>
   parseOption [''primecount'', ''--threads=''] 1 = Inl (missing_value ''--threads'') \<and>
   parseOption [''primecount'', ''-5''] 1 = Inl (unrecognized ''-5'')"
proof -
  let ?a = "[''primecount'', ''100'', ''--foo'']"
  have pa: "2 \<in> set (parse_positions ?a 1)" by code_simp
  have ha: "isOption (?a ! 2) \<and> CHR ''='' \<notin> set (?a ! 2) \<and> \<not> option_count (?a ! 2) \<and>
      \<not> option_count (takeWhile (\<lambda>c. \<not> is_digit c) (?a ! 2))"
    by code_simp
  note A = malformed_option_raises [OF pa, where env = example_env and opts = initial_options
      and numbers = "[]" and bfile = "[]" and t = "''--foo''"]
  from A ha have ra: "parseOption ?a 2 = Inl (unrecognized (?a ! 2))" by blast
  with A have la: "parse_loop example_env ?a 2 initial_options [] [] =
      Raised (unrecognized (?a ! 2))" "\<not> is_returned (parseOptions example_env ?a)"
    by blast+
  from A have ca: "contains (unrecognized ''--foo'') ''--foo''" by blast
  let ?b = "[''primecount'', '''']"
  have pb: "1 \<in> set (parse_positions ?b 1)" by code_simp
  have hb: "?b ! 1 = []" by simp
  from malformed_option_raises [OF pb, where env = example_env and opts = initial_options
      and numbers = "[]" and bfile = "[]" and t = "[]"] hb
  have rb: "parseOption ?b 1 = Inl (unrecognized [])" by blast
  let ?c = "[''primecount'', ''--foo=5'']"
  have pc: "1 \<in> set (parse_positions ?c 1)" by code_simp
  have hc: "isOption (?c ! 1) \<and> CHR ''='' \<in> set (?c ! 1) \<and>
      \<not> option_count (takeWhile (\<lambda>c. c \<noteq> CHR ''='') (?c ! 1))"
    by code_simp
  from malformed_option_raises [OF pc, where env = example_env and opts = initial_options
      and numbers = "[]" and bfile = "[]" and t = "[]"] hc
  have rc: "parseOption ?c 1 = Inl (unrecognized (takeWhile (\<lambda>c. c \<noteq> CHR ''='') (?c ! 1)))"
    by blast
  let ?d = "[''primecount'', ''--threads'', ''--time'']"
  have pd: "1 \<in> set (parse_positions ?d 1)" by code_simp
  have hd: "option_count (?d ! 1) \<and> option_param (?d ! 1) = REQUIRED_PARAM \<and>
      (length ?d \<le> 1 + 1 \<or> ?d ! (1 + 1) = [] \<or> isOption (?d ! (1 + 1)))"
    by code_simp
  from malformed_option_raises [OF pd, where env = example_env and opts = initial_options
      and numbers = "[]" and bfile = "[]" and t = "[]"] hd
  have rd: "parseOption ?d 1 = Inl (missing_value (?d ! 1))" by blast
  let ?e = "[''primecount'', ''--threads='']"
  have pe: "1 \<in> set (parse_positions ?e 1)" by code_simp
  have he: "isOption (?e ! 1) \<and> CHR ''='' \<in> set (?e ! 1) \<and>
      option_count (takeWhile (\<lambda>c. c \<noteq> CHR ''='') (?e ! 1)) \<and>
      option_param (takeWhile (\<lambda>c. c \<noteq> CHR ''='') (?e ! 1)) = REQUIRED_PARAM \<and>
      tl (dropWhile (\<lambda>c. c \<noteq> CHR ''='') (?e ! 1)) = []"
    by code_simp
  from malformed_option_raises [OF pe, where env = example_env and opts = initial_options
      and numbers = "[]" and bfile = "[]" and t = "[]"] he
  have re: "parseOption ?e 1 = Inl (missing_value (takeWhile (\<lambda>c. c \<noteq> CHR ''='') (?e ! 1)))"
    by blast
  let ?f = "[''primecount'', ''-5'']"
  have pf: "1 \<in> set (parse_positions ?f 1)" by code_simp
  have hf: "\<not> isOption (?f ! 1) \<and> ?f ! 1 \<noteq> [] \<and>
      (\<not> list_ex is_digit (?f ! 1) \<or> hd (?f ! 1) = CHR ''-'')"
    by code_simp
  from malformed_option_raises [OF pf, where env = example_env and opts = initial_options
      and numbers = "[]" and bfile = "[]" and t = "[]"] hf
  have rf: "parseOption ?f 1 = Inl (unrecognized (?f ! 1))" by blast
  show ?thesis using pa ra la ca rb rc rd re rf by simp
qed

text \<open>
  The message does not always contain the whole argument: for \<open>--foo=5\<close> it names
  \<open>--foo\<close>, and for \<open>--threads=\<close> it names \<open>--threads\<close>. And an argument that the
  option before it takes as its value is not parsed as an option: with the arguments
  \<open>100 -b foo\<close>, \<^verbatim>\<open>parseOptions\<close> returns normally, although \<open>foo\<close> has no digit and is
  not an option.
\<close>

theorem option_message_counterexample:
  "parseOption [''primecount'', ''--foo=5''] 1 = Inl (unrecognized ''--foo'') \<and>
   contains (unrecognized ''--foo'') ''--foo=5'' = False \<and>
   parseOption [''primecount'', ''--threads=''] 1 = Inl (missing_value ''--threads'') \<and>
   contains (missing_value ''--threads'') ''--threads='' = False \<and>
   is_returned (parseOptions example_env [''primecount'', ''100'', ''-b'', ''foo'']) = True \<and>
   parse_positions [''primecount'', ''100'', ''-b'', ''foo''] 1 = [1, 2]"
  by code_simp

end
